theory Spec2Isabelle
  imports Complex_Main "HOL-Library.Word"
begin

section \<open>Strings, paths and formatting\<close>

text \<open>
  The archive bot is Python 2 on a POSIX system: a path is a byte string, and
  \<^verbatim>\<open>os.path\<close> is \<^verbatim>\<open>posixpath\<close>. The functions below follow the
  library's own source.
\<close>

type_synonym path = string

definition newline :: char where
  "newline = CHR 0x0A"

text \<open>\<^verbatim>\<open>p.rfind(c) + 1\<close>: the index just after the last \<open>c\<close>, 0 when there is none.\<close>

definition rfind1 :: "char \<Rightarrow> string \<Rightarrow> nat" where
  "rfind1 c p = length p - length (takeWhile (\<lambda>x. x \<noteq> c) (rev p))"

definition rstrip :: "char \<Rightarrow> string \<Rightarrow> string" where
  "rstrip c s = rev (dropWhile (\<lambda>x. x = c) (rev s))"

definition startswith :: "char \<Rightarrow> string \<Rightarrow> bool" where
  "startswith c s = (case s of [] \<Rightarrow> False | x # _ \<Rightarrow> x = c)"

definition endswith :: "char \<Rightarrow> string \<Rightarrow> bool" where
  "endswith c s = (case rev s of [] \<Rightarrow> False | x # _ \<Rightarrow> x = c)"

text \<open>
  \<^verbatim>\<open>posixpath.split\<close>: cut after the last slash; trailing slashes are stripped
  from the head unless the head is slashes only.
\<close>

definition os_path_split :: "path \<Rightarrow> path \<times> path" where
  "os_path_split p =
     (let i = rfind1 CHR ''/'' p;
          head = take i p;
          tail = drop i p
      in (if head \<noteq> [] \<and> head \<noteq> replicate (length head) CHR ''/''
          then rstrip CHR ''/'' head else head, tail))"

text \<open>\<^verbatim>\<open>posixpath.join(a, b)\<close>; with more components it is folded from the left.\<close>

definition os_path_join :: "path \<Rightarrow> path \<Rightarrow> path" where
  "os_path_join a b =
     (if startswith CHR ''/'' b then b
      else if a = [] \<or> endswith CHR ''/'' a then a @ b
      else a @ ''/'' @ b)"

text \<open>
  \<^verbatim>\<open>posixpath.splitext\<close>: the extension starts at the last dot of the last
  component, unless that component has only dots before it.
\<close>

definition os_path_splitext :: "path \<Rightarrow> path \<times> path" where
  "os_path_splitext p =
     (let sep1 = rfind1 CHR ''/'' p;
          dot1 = rfind1 CHR ''.'' p
      in if sep1 < dot1 \<and> list_ex (\<lambda>c. c \<noteq> CHR ''.'') (take (dot1 - 1 - sep1) (drop sep1 p))
         then (take (dot1 - 1) p, drop (dot1 - 1) p)
         else (p, []))"

text \<open>\<^verbatim>\<open>"{0:08x}".format(n)\<close> for the 32 bits of \<^verbatim>\<open>random.getrandbits(32)\<close>.\<close>

definition hexdigit :: "nat \<Rightarrow> char" where
  "hexdigit d = ''0123456789abcdef'' ! (d mod 16)"

definition format_08x :: "32 word \<Rightarrow> string" where
  "format_08x w = map (\<lambda>i. hexdigit (unat w div 16 ^ i mod 16)) [7, 6, 5, 4, 3, 2, 1, 0]"

text \<open>\<^verbatim>\<open>"{0:08d}".format(n)\<close>: decimal, padded with zeros to at least eight digits.\<close>

fun digits10 :: "nat \<Rightarrow> string" where
  "digits10 n =
     (if n < 10 then [''0123456789'' ! n]
      else digits10 (n div 10) @ [''0123456789'' ! (n mod 10)])"

declare digits10.simps [simp del]

definition format_08d :: "nat \<Rightarrow> string" where
  "format_08d n = replicate (8 - length (digits10 n)) CHR ''0'' @ digits10 n"

section \<open>The name of a rotated file\<close>

text \<open>
  The pattern \<^verbatim>\<open>^(.*)\.compress-[0-9a-f]{8}$\<close> under \<^verbatim>\<open>re.I\<close>, matched with
  \<^verbatim>\<open>re.match\<close>. Without \<^verbatim>\<open>re.DOTALL\<close> the dot matches every character but
  the newline; without \<^verbatim>\<open>re.MULTILINE\<close> the dollar matches at the end of the text
  and just before a newline that ends the text; \<^verbatim>\<open>re.I\<close> ignores the case of ASCII
  letters.
\<close>

definition ascii_lower :: "char \<Rightarrow> char" where
  "ascii_lower c =
     (case map_of (zip ''ABCDEFGHIJKLMNOPQRSTUVWXYZ'' ''abcdefghijklmnopqrstuvwxyz'') c of
        Some l \<Rightarrow> l
      | None \<Rightarrow> c)"

definition is_hex :: "char \<Rightarrow> bool" where
  "is_hex c = (ascii_lower c \<in> set ''0123456789abcdef'')"

text \<open>\<^verbatim>\<open>\.compress-[0-9a-f]{8}$\<close> against the text that \<^verbatim>\<open>(.*)\<close> has left.\<close>

definition tag_end :: "string \<Rightarrow> bool" where
  "tag_end r =
     (18 \<le> length r \<and> map ascii_lower (take 10 r) = ''.compress-'' \<and>
      list_all is_hex (take 8 (drop 10 r)) \<and>
      (drop 18 r = [] \<or> drop 18 r = [newline]))"

text \<open>
  The greedy group: the matcher tries the longest text for \<^verbatim>\<open>(.*)\<close> first and
  backtracks one character at a time; \<open>k\<close> is the length it tries.
\<close>

fun greedy :: "nat \<Rightarrow> string \<Rightarrow> string option" where
  "greedy 0 s = (if tag_end s then Some [] else None)"
| "greedy (Suc k) s =
     (if newline \<notin> set (take (Suc k) s) \<and> tag_end (drop (Suc k) s)
      then Some (take (Suc k) s) else greedy k s)"

definition re_match_compress :: "string \<Rightarrow> string option" where
  "re_match_compress s = greedy (length s) s"

datatype errno = EEXIST | ENOENT | EISDIR | ENOTDIR | ENOSPC | EIO | EACCES

text \<open>Python 2: \<open>IOError\<close> and \<open>OSError\<close> are different classes, neither a \<open>ValueError\<close>.\<close>

datatype error = ValueError | IOError errno | OSError errno

definition split_compress_path :: "path \<Rightarrow> error + (path \<times> string)" where
  "split_compress_path p =
     (let (directory, filename) = os_path_split p
      in case re_match_compress filename of
           None \<Rightarrow> Inl ValueError
         | Some g \<Rightarrow> Inr (directory, g))"

text \<open>\<^verbatim>\<open>_split_compress_path\<close> raises nothing but \<open>ValueError\<close>, which is caught here.\<close>

definition is_compress_path :: "path \<Rightarrow> bool" where
  "is_compress_path p = (case split_compress_path p of Inl _ \<Rightarrow> False | Inr _ \<Rightarrow> True)"

section \<open>The file system\<close>

text \<open>
  A path names a regular file with its bytes, or a directory. A path string stands
  for the file it resolves to: two different strings are two different files.
\<close>

datatype node = File string | Dir

type_synonym fs = "path \<Rightarrow> node option"

definition isfile :: "fs \<Rightarrow> path \<Rightarrow> bool" where
  "isfile f p = (case f p of Some (File _) \<Rightarrow> True | _ \<Rightarrow> False)"

definition compress_candidate :: "path \<Rightarrow> 32 word \<Rightarrow> path" where
  "compress_candidate p r =
     (let (head, tail) = os_path_split p;
          new_tail = tail @ ''.compress-'' @ format_08x r
      in os_path_join head new_tail)"

text \<open>
  \<^verbatim>\<open>_create_compress_path\<close>: the loop draws 32 random bits each round. The draws
  are a list; \<open>None\<close> when the list ends with the loop still running.
\<close>

fun create_compress_path :: "fs \<Rightarrow> path \<Rightarrow> 32 word list \<Rightarrow> path option" where
  "create_compress_path f p [] = None"
| "create_compress_path f p (r # rs) =
     (let new_path = compress_candidate p r
      in if \<not> isfile f new_path then Some new_path else create_compress_path f p rs)"

text \<open>What \<^verbatim>\<open>posixpath.split\<close> returns as a head: empty, slashes only, or not ending in a slash.\<close>

definition head_ok :: "path \<Rightarrow> bool" where
  "head_ok h = (h = [] \<or> h = replicate (length h) CHR ''/'' \<or> last h \<noteq> CHR ''/'')"

definition empty_fs :: fs where
  "empty_fs = (\<lambda>_. None)"

section \<open>The world: files, what was done to them, and the queue\<close>

text \<open>
  The log messages of the bot, by what they report.
\<close>

datatype logmsg = Opened path | Closed path | Compressed path | InvalidPath path

text \<open>
  The trace lists the system calls and library calls in the order the code makes them;
  the claims about order are claims about it.
\<close>

text \<open>The three streams of one room's pipeline.\<close>

datatype stream = CollectStream | CompressStream | RotateStream

datatype event =
    EvOpen path
  | EvCreate path
  | EvExists path
  | EvWrite path string
  | EvFinish path
  | EvFlush path
  | EvClose path
  | EvRemove path
  | EvRename path path
  | EvQueue real path
  | EvInfo logmsg
  | EvError logmsg
  | EvStart stream

record world =
  files :: fs
  trace :: "event list"
  queue :: "(real \<times> path) list"

definition emit :: "event \<Rightarrow> world \<Rightarrow> world" where
  "emit e w = w\<lparr>trace := trace w @ [e]\<rparr>"

text \<open>
  Modelled from the spec: \<^verbatim>\<open>abusehelper.core.utils.WaitQueue\<close> is not among the
  sources. \<^verbatim>\<open>queue(delay, item)\<close> schedules an item to become eligible after the
  delay; the queue keeps the entries in the order they were put.
\<close>

definition queue_put :: "real \<Rightarrow> path \<Rightarrow> world \<Rightarrow> world" where
  "queue_put delay item w = emit (EvQueue delay item) (w\<lparr>queue := queue w @ [(delay, item)]\<rparr>)"

text \<open>
  What is wrong with the directory a new entry would go into: nothing when it is the
  current directory, the root, or a \<open>Dir\<close>.
\<close>

definition parent_error :: "fs \<Rightarrow> path \<Rightarrow> errno option" where
  "parent_error f p =
     (let d = fst (os_path_split p)
      in if d = [] \<or> d = replicate (length d) CHR ''/'' then None
         else (case f d of
                 Some Dir \<Rightarrow> None
               | Some (File _) \<Rightarrow> Some ENOTDIR
               | None \<Rightarrow> Some ENOENT))"

text \<open>\<^verbatim>\<open>os.open(path, os.O_CREAT | os.O_EXCL | os.O_RDWR)\<close>: one atomic system call.\<close>

definition os_open_excl :: "path \<Rightarrow> world \<Rightarrow> (error + unit) \<times> world" where
  "os_open_excl p w =
     (if files w p \<noteq> None then (Inl (OSError EEXIST), emit (EvExists p) w)
      else (case parent_error (files w) p of
              Some e \<Rightarrow> (Inl (OSError e), w)
            | None \<Rightarrow> (Inr (), emit (EvCreate p) (w\<lparr>files := (files w)(p \<mapsto> File [])\<rparr>))))"

text \<open>
  The loop of \<^verbatim>\<open>_unique_writable_file\<close>, from the state (\<open>count\<close>, \<open>path\<close>) it is
  in. Nothing bounds the number of rounds, so the loop is a partial function: \<open>None\<close>
  is the loop that never ends.
\<close>

partial_function (option) unique_loop ::
  "path \<Rightarrow> string \<Rightarrow> string \<Rightarrow> nat \<Rightarrow> path \<Rightarrow> world \<Rightarrow> ((error + path) \<times> world) option" where
  "unique_loop directory prefix suffix count p w =
     (case os_open_excl p w of
        (Inr _, w') \<Rightarrow> Some (Inr p, w')
      | (Inl e, w') \<Rightarrow>
          if e \<noteq> OSError EEXIST then Some (Inl e, w')
          else unique_loop directory prefix suffix (count + 1)
                 (os_path_join directory (prefix @ ''-'' @ format_08d (count + 1) @ suffix)) w')"

declare unique_loop.simps [code]

definition unique_writable_file ::
  "path \<Rightarrow> string \<Rightarrow> string \<Rightarrow> world \<Rightarrow> ((error + path) \<times> world) option" where
  "unique_writable_file directory prefix suffix w =
     unique_loop directory prefix suffix 0 (os_path_join directory (prefix @ suffix)) w"

section \<open>The compressor\<close>

text \<open>\<^verbatim>\<open>open(path, "rb")\<close>; the bytes are those the iteration over the file will read.\<close>

definition os_open_read :: "path \<Rightarrow> world \<Rightarrow> (error + string) \<times> world" where
  "os_open_read p w =
     (case files w p of
        None \<Rightarrow> (Inl (IOError ENOENT), w)
      | Some Dir \<Rightarrow> (Inl (IOError EISDIR), w)
      | Some (File s) \<Rightarrow> (Inr s, emit (EvOpen p) w))"

text \<open>Iterating over a file gives its lines, each with the newline that ends it.\<close>

fun file_lines :: "string \<Rightarrow> string list" where
  "file_lines [] = []"
| "file_lines (c # cs) =
     (if c = newline then [c] # file_lines cs
      else (case file_lines cs of [] \<Rightarrow> [[c]] | l # ls \<Rightarrow> (c # l) # ls))"

text \<open>
  What the environment does to one call of \<^verbatim>\<open>compress\<close>: \<open>stream_fault = Some (k, e)\<close>
  when moving line \<open>k\<close> from the archive into the gzip stream fails with errno \<open>e\<close>
  (reading the source or writing the stream), the lines before it having been written;
  \<open>finish_fault\<close> when closing the gzip stream fails; \<open>remove_fault\<close> when the
  system refuses to remove the original.
\<close>

record io_script =
  stream_fault :: "(nat \<times> errno) option"
  finish_fault :: "errno option"
  remove_fault :: "errno option"

text \<open>
  For the examples: a stand-in for zlib that stores the data as it is, between a header
  and, once the stream is finished, a trailer.
\<close>

definition stored_gz :: "string \<Rightarrow> bool \<Rightarrow> string" where
  "stored_gz d fin = ''GZ['' @ d @ (if fin then '']'' else [])"

definition no_faults :: io_script where
  "no_faults = \<lparr>stream_fault = None, finish_fault = None, remove_fault = None\<rparr>"

text \<open>
  The body of the inner \<^verbatim>\<open>with\<close>: \<^verbatim>\<open>compressed.writelines(archive)\<close> and, in the
  \<^verbatim>\<open>finally\<close>, \<^verbatim>\<open>compressed.close()\<close>. zlib is not part of the program: \<open>gz d fin\<close>
  stands for the bytes of the gzip stream after data \<open>d\<close> has been written to it,
  with its trailer when \<open>fin\<close>. An exception raised in the \<^verbatim>\<open>finally\<close> replaces the one
  that was being handled. The bytes reach the file when the file object is closed.
\<close>

definition gzip_writelines ::
  "(string \<Rightarrow> bool \<Rightarrow> string) \<Rightarrow> io_script \<Rightarrow> path \<Rightarrow> string list \<Rightarrow> world \<Rightarrow>
     (error + unit) \<times> string \<times> world" where
  "gzip_writelines gz script gz_path lines w =
     (let written = (case stream_fault script of None \<Rightarrow> lines | Some (k, _) \<Rightarrow> take k lines);
          w1 = fold (\<lambda>l. emit (EvWrite gz_path l)) written w;
          finished = (finish_fault script = None);
          w2 = (if finished then emit (EvFinish gz_path) w1 else w1);
          bytes = gz (concat written) finished
      in case finish_fault script of
           Some e \<Rightarrow> (Inl (IOError e), bytes, w2)
         | None \<Rightarrow>
             (case stream_fault script of
                Some (_, e) \<Rightarrow> (Inl (IOError e), bytes, w2)
              | None \<Rightarrow> (Inr (), bytes, w2)))"

text \<open>Leaving the \<^verbatim>\<open>with os.fdopen(fd, "wb")\<close> block closes the file object.\<close>

definition close_written :: "path \<Rightarrow> string \<Rightarrow> world \<Rightarrow> world" where
  "close_written p bytes w = emit (EvClose p) (w\<lparr>files := (files w)(p \<mapsto> File bytes)\<rparr>)"

definition os_remove :: "io_script \<Rightarrow> path \<Rightarrow> world \<Rightarrow> (error + unit) \<times> world" where
  "os_remove script p w =
     (case remove_fault script of
        Some e \<Rightarrow> (Inl (OSError e), w)
      | None \<Rightarrow>
          (case files w p of
             None \<Rightarrow> (Inl (OSError ENOENT), w)
           | Some Dir \<Rightarrow> (Inl (OSError EISDIR), w)
           | Some (File _) \<Rightarrow> (Inr (), emit (EvRemove p) (w\<lparr>files := (files w)(p := None)\<rparr>))))"

text \<open>\<^verbatim>\<open>try: os.remove(path) except OSError: pass\<close>\<close>

definition remove_quietly :: "io_script \<Rightarrow> path \<Rightarrow> world \<Rightarrow> (error + unit) \<times> world" where
  "remove_quietly script p w =
     (case os_remove script p w of
        (Inl (OSError _), w') \<Rightarrow> (Inr (), w')
      | (r, w') \<Rightarrow> (r, w'))"

definition compress ::
  "(string \<Rightarrow> bool \<Rightarrow> string) \<Rightarrow> io_script \<Rightarrow> path \<Rightarrow> world \<Rightarrow> ((error + path) \<times> world) option" where
  "compress gz script p w =
     (case os_open_read p w of
        (Inl e, w1) \<Rightarrow> Some (Inl e, w1)
      | (Inr content, w1) \<Rightarrow>
          (case split_compress_path p of
             Inl e \<Rightarrow> Some (Inl e, emit (EvClose p) w1)
           | Inr (directory, filename) \<Rightarrow>
               (let (prefix, suffix) = os_path_splitext filename
                in case unique_writable_file directory prefix (suffix @ ''.gz'') w1 of
                     None \<Rightarrow> None
                   | Some (Inl e, w2) \<Rightarrow> Some (Inl e, emit (EvClose p) w2)
                   | Some (Inr gz_path, w2) \<Rightarrow>
                       (let (r, bytes, w3) = gzip_writelines gz script gz_path (file_lines content) w2;
                            w4 = emit (EvClose p) (close_written gz_path bytes w3)
                        in case r of
                             Inl e \<Rightarrow> Some (Inl e, w4)
                           | Inr _ \<Rightarrow>
                               (case remove_quietly script p w4 of
                                  (Inl e, w5) \<Rightarrow> Some (Inl e, w5)
                                | (Inr _, w5) \<Rightarrow> Some (Inr gz_path, w5))))))"

section \<open>The compression worker\<close>

text \<open>
  One round of the loop of \<^verbatim>\<open>_compress\<close>, for the path that \<^verbatim>\<open>queue.wait()\<close> has
  returned: only \<open>ValueError\<close> is caught.
\<close>

definition compress_round ::
  "(string \<Rightarrow> bool \<Rightarrow> string) \<Rightarrow> io_script \<Rightarrow> path \<Rightarrow> world \<Rightarrow> ((error + unit) \<times> world) option" where
  "compress_round gz script compress_path w =
     (case compress gz script compress_path w of
        None \<Rightarrow> None
      | Some (Inr p, w') \<Rightarrow> Some (Inr (), emit (EvInfo (Compressed p)) w')
      | Some (Inl ValueError, w') \<Rightarrow> Some (Inr (), emit (EvError (InvalidPath compress_path)) w')
      | Some (Inl e, w') \<Rightarrow> Some (Inl e, w'))"

text \<open>
  The loop, over the paths the queue hands out, in that order (each with what the
  environment does to its compression). \<open>Inr ()\<close>: the loop is waiting for the next
  path. \<open>Inl e\<close>: the exception \<open>e\<close> has ended the stream; the paths left are not
  looked at.
\<close>

fun compress_worker ::
  "(string \<Rightarrow> bool \<Rightarrow> string) \<Rightarrow> (io_script \<times> path) list \<Rightarrow> world \<Rightarrow> ((error + unit) \<times> world) option" where
  "compress_worker gz [] w = Some (Inr (), w)"
| "compress_worker gz ((script, p) # jobs) w =
     (case compress_round gz script p w of
        None \<Rightarrow> None
      | Some (Inl e, w') \<Rightarrow> Some (Inl e, w')
      | Some (Inr _, w') \<Rightarrow> compress_worker gz jobs w')"

section \<open>The rotation signal\<close>

text \<open>
  One round of the loop of \<^verbatim>\<open>rotate\<close>: \<open>now\<close> is \<^verbatim>\<open>datetime.utcnow().day\<close>, and the
  result says whether the event was sent. \<^verbatim>\<open>last\<close> starts as \<^verbatim>\<open>None\<close>, which differs from
  every day.
\<close>

definition rotate_poll :: "nat option \<Rightarrow> nat \<Rightarrow> nat option \<times> bool" where
  "rotate_poll last_day now =
     (if Some now \<noteq> last_day then (Some now, True) else (last_day, False))"

text \<open>The loop from a state \<open>last_day\<close>, over the days its polls observe: which polls send.\<close>

fun rotate_from :: "nat option \<Rightarrow> nat list \<Rightarrow> bool list" where
  "rotate_from last_day [] = []"
| "rotate_from last_day (now # days) =
     (let (last_day', sent) = rotate_poll last_day now in sent # rotate_from last_day' days)"

definition rotate :: "nat list \<Rightarrow> bool list" where
  "rotate days = rotate_from None days"

section \<open>Archive files\<close>

text \<open>\<^verbatim>\<open>str.split(sep)\<close> for a one-character separator.\<close>

fun str_split :: "char \<Rightarrow> string \<Rightarrow> string list" where
  "str_split c [] = [[]]"
| "str_split c (x # xs) =
     (if x = c then [] # str_split c xs
      else (case str_split c xs of [] \<Rightarrow> [[x]] | u # us \<Rightarrow> (x # u) # us))"

text \<open>\<^verbatim>\<open>sep.join(parts)\<close>\<close>

fun str_join :: "string \<Rightarrow> string list \<Rightarrow> string" where
  "str_join sep [] = []"
| "str_join sep [u] = u"
| "str_join sep (u # v # us) = u @ sep @ str_join sep (v # us)"

text \<open>The loop of \<^verbatim>\<open>posixpath.normpath\<close> over the components, \<open>new_comps\<close> being built.\<close>

fun norm_comps :: "nat \<Rightarrow> string list \<Rightarrow> string list \<Rightarrow> string list" where
  "norm_comps initial_slashes [] new_comps = new_comps"
| "norm_comps initial_slashes (component # comps) new_comps =
     (if component = [] \<or> component = ''.'' then norm_comps initial_slashes comps new_comps
      else if component \<noteq> ''..'' \<or> (initial_slashes = 0 \<and> new_comps = []) \<or>
              (new_comps \<noteq> [] \<and> last new_comps = ''..'')
           then norm_comps initial_slashes comps (new_comps @ [component])
      else if new_comps \<noteq> [] then norm_comps initial_slashes comps (butlast new_comps)
      else norm_comps initial_slashes comps new_comps)"

definition normpath :: "path \<Rightarrow> path" where
  "normpath p =
     (if p = [] then ''.''
      else
        let initial_slashes =
              (if startswith CHR ''/'' p
               then (if take 2 p = ''//'' \<and> take 3 p \<noteq> ''///'' then 2 else 1)
               else (0::nat));
            comps = norm_comps initial_slashes (str_split CHR ''/'' p) [];
            q = replicate initial_slashes CHR ''/'' @ str_join ''/'' comps
        in if q = [] then ''.'' else q)"

text \<open>\<^verbatim>\<open>os.path.abspath\<close>, \<open>cwd\<close> being \<^verbatim>\<open>os.getcwd()\<close>.\<close>

definition abspath :: "path \<Rightarrow> path \<Rightarrow> path" where
  "abspath cwd p = normpath (if startswith CHR ''/'' p then p else os_path_join cwd p)"

definition os_mkdir :: "path \<Rightarrow> fs \<Rightarrow> (error + unit) \<times> fs" where
  "os_mkdir p f =
     (if f p \<noteq> None then (Inl (OSError EEXIST), f)
      else (case parent_error f p of
              Some e \<Rightarrow> (Inl (OSError e), f)
            | None \<Rightarrow> (Inr (), f(p \<mapsto> Dir))))"

lemma rstrip_length: "length (rstrip c s) \<le> length s"
  using length_dropWhile_le[of "\<lambda>x. x = c" "rev s"] by (simp add: rstrip_def)

lemma split_head_length: "length (fst (os_path_split p)) \<le> length p"
  using rstrip_length[of "CHR ''/''" "take (rfind1 CHR ''/'' p) p"]
  by (simp add: os_path_split_def Let_def)

lemma split_head_shorter:
  assumes "snd (os_path_split p) \<noteq> []"
  shows "length (fst (os_path_split p)) < length p"
proof -
  let ?i = "rfind1 CHR ''/'' p"
  from assms have "drop ?i p \<noteq> []"
    by (simp add: os_path_split_def Let_def)
  then have i: "?i < length p" by simp
  have "length (fst (os_path_split p)) \<le> length (take ?i p)"
    using rstrip_length[of "CHR ''/''" "take ?i p"]
    by (simp only: os_path_split_def Let_def fst_conv split: if_splits) simp
  also have "\<dots> = ?i" using i by simp
  finally show ?thesis using i by simp
qed

text \<open>
  \<^verbatim>\<open>os.makedirs\<close>: the missing ancestors first, then the directory itself. The
  recursion is on the head of the name, which is shorter than the name.
\<close>

function makedirs :: "path \<Rightarrow> fs \<Rightarrow> (error + unit) \<times> fs" where
  "makedirs name f =
     (let ht = os_path_split name;
          ht = (if snd ht = [] then os_path_split (fst ht) else ht);
          head = fst ht;
          tail = snd ht
      in if head \<noteq> [] \<and> tail \<noteq> [] \<and> f head = None
         then (case makedirs head f of
                 (Inl e, f') \<Rightarrow>
                   if e \<noteq> OSError EEXIST then (Inl e, f')
                   else if tail = ''.'' then (Inr (), f')
                   else os_mkdir name f'
               | (Inr _, f') \<Rightarrow>
                   if tail = ''.'' then (Inr (), f') else os_mkdir name f')
         else os_mkdir name f)"
  by pat_completeness auto

termination
  apply (relation "measure (\<lambda>(name, f). length name)")
  apply simp
  apply simp
  apply (auto split: if_splits)
  subgoal for name
    using split_head_shorter[of "fst (os_path_split name)"] split_head_length[of name]
    by simp
  subgoal for name
    using split_head_shorter[of name] by simp
  done

text \<open>\<^verbatim>\<open>ensure_dir\<close>: an \<^verbatim>\<open>OSError\<close> with \<^verbatim>\<open>EEXIST\<close> is passed over, any other raised again.\<close>

definition ensure_dir :: "path \<Rightarrow> path \<Rightarrow> fs \<Rightarrow> (error + path) \<times> fs" where
  "ensure_dir cwd dir_name f =
     (let dir_name = abspath cwd dir_name
      in case makedirs dir_name f of
           (Inl e, f') \<Rightarrow> if e \<noteq> OSError EEXIST then (Inl e, f') else (Inr dir_name, f')
         | (Inr _, f') \<Rightarrow> (Inr dir_name, f'))"

text \<open>
  \<^verbatim>\<open>time.gmtime(ts)\<close>, as far as \<^verbatim>\<open>archive_path\<close> reads it, and the three
  \<^verbatim>\<open>strftime\<close> formats.
\<close>

record date =
  year :: nat
  month :: nat
  day :: nat

definition format_02d :: "nat \<Rightarrow> string" where
  "format_02d n = replicate (2 - length (digits10 n)) CHR ''0'' @ digits10 n"

definition archive_path :: "date \<Rightarrow> string \<Rightarrow> path" where
  "archive_path gmtime room_name =
     os_path_join
       (os_path_join (os_path_join room_name (digits10 (year gmtime))) (format_02d (month gmtime)))
       (format_02d (day gmtime) @ ''.json'')"

text \<open>
  A file object opened for writing: its \<^verbatim>\<open>name\<close>, the bytes written to it that
  have not reached the file yet, and whether it has been closed. The bytes go to the
  file at that name.
\<close>

record handle =
  name :: path
  pending :: string
  closed :: bool

definition append_bytes :: "path \<Rightarrow> string \<Rightarrow> world \<Rightarrow> world" where
  "append_bytes p bytes w =
     (case files w p of
        Some (File s) \<Rightarrow> w\<lparr>files := (files w)(p \<mapsto> File (s @ bytes))\<rparr>
      | _ \<Rightarrow> w)"

text \<open>\<^verbatim>\<open>open(path, "ab", buffering=1)\<close>: created when missing, line buffered.\<close>

definition os_open_append :: "path \<Rightarrow> world \<Rightarrow> (error + handle) \<times> world" where
  "os_open_append p w =
     (case files w p of
        Some Dir \<Rightarrow> (Inl (IOError EISDIR), w)
      | Some (File _) \<Rightarrow> (Inr \<lparr>name = p, pending = [], closed = False\<rparr>, w)
      | None \<Rightarrow>
          (case parent_error (files w) p of
             Some e \<Rightarrow> (Inl (IOError e), w)
           | None \<Rightarrow>
               (Inr \<lparr>name = p, pending = [], closed = False\<rparr>,
                w\<lparr>files := (files w)(p \<mapsto> File [])\<rparr>)))"

definition open_archive :: "path \<Rightarrow> path \<Rightarrow> date \<Rightarrow> string \<Rightarrow> world \<Rightarrow> (error + handle) \<times> world" where
  "open_archive cwd archive_dir ts room_name w =
     (let p = os_path_join archive_dir (archive_path ts room_name);
          dirname = fst (os_path_split p)
      in case ensure_dir cwd dirname (files w) of
           (Inl e, f') \<Rightarrow> (Inl e, w\<lparr>files := f'\<rparr>)
         | (Inr _, f') \<Rightarrow> os_open_append p (w\<lparr>files := f'\<rparr>))"

text \<open>
  The methods of the file object. Writing to a closed file is a \<open>ValueError\<close>;
  closing it again is not. With line buffering, what is written goes to the file up to
  its last newline.
\<close>

definition file_flush :: "handle \<Rightarrow> world \<Rightarrow> (error + handle) \<times> world" where
  "file_flush h w =
     (if closed h then (Inl ValueError, w)
      else (Inr (h\<lparr>pending := []\<rparr>), emit (EvFlush (name h)) (append_bytes (name h) (pending h) w)))"

definition file_close :: "handle \<Rightarrow> world \<Rightarrow> handle \<times> world" where
  "file_close h w =
     (if closed h then (h, w)
      else (h\<lparr>pending := [], closed := True\<rparr>,
            emit (EvClose (name h)) (append_bytes (name h) (pending h) w)))"

definition file_write :: "handle \<Rightarrow> string \<Rightarrow> world \<Rightarrow> (error + handle) \<times> world" where
  "file_write h s w =
     (if closed h then (Inl ValueError, w)
      else
        let buf = pending h @ s;
            n = rfind1 newline buf
        in (Inr (h\<lparr>pending := drop n buf\<rparr>), append_bytes (name h) (take n buf) w))"

text \<open>
  \<^verbatim>\<open>os.rename\<close> of a regular file: it replaces a regular file at the new name.
  The bot renames archive files only; renaming a directory, with all below it, is not
  modelled and is refused here.
\<close>

definition os_rename :: "path \<Rightarrow> path \<Rightarrow> world \<Rightarrow> (error + unit) \<times> world" where
  "os_rename src dst w =
     (case files w src of
        None \<Rightarrow> (Inl (OSError ENOENT), w)
      | Some Dir \<Rightarrow> (Inl (OSError EACCES), w)
      | Some (File s) \<Rightarrow>
          if files w dst = Some Dir then (Inl (OSError EISDIR), w)
          else (case parent_error (files w) dst of
                  Some e \<Rightarrow> (Inl (OSError e), w)
                | None \<Rightarrow>
                    (Inr (), emit (EvRename src dst)
                       (w\<lparr>files := ((files w)(src := None))(dst \<mapsto> File s)\<rparr>))))"

text \<open>\<^verbatim>\<open>_rename\<close>; \<open>None\<close> when the draws end with \<^verbatim>\<open>_create_compress_path\<close> still looping.\<close>

definition rename :: "32 word list \<Rightarrow> path \<Rightarrow> world \<Rightarrow> ((error + path) \<times> world) option" where
  "rename draws p w =
     (case create_compress_path (files w) p draws of
        None \<Rightarrow> None
      | Some new_path \<Rightarrow>
          (case os_rename p new_path w of
             (Inl e, w') \<Rightarrow> Some (Inl e, w')
           | (Inr _, w') \<Rightarrow> Some (Inr new_path, w')))"

section \<open>The collector\<close>

text \<open>
  What \<^verbatim>\<open>idiokit.next()\<close> hands to \<^verbatim>\<open>_collect\<close>: the rotate event itself, or an
  event of the room. An event of the room comes with \<^verbatim>\<open>time.gmtime(time.time())\<close> of
  the moment it is handled and with the text \<^verbatim>\<open>json.dumps\<close> gives for it.
\<close>

datatype input = RotateEvent | Record date string

text \<open>
  One round of the loop of \<^verbatim>\<open>_collect\<close>. The state is the variable \<^verbatim>\<open>archive\<close>:
  \<open>None\<close>, or the file object. The result has the exception that ended the round, if
  any, and \<^verbatim>\<open>archive\<close> as the round leaves it; it is \<open>None\<close> when the draws end with
  \<^verbatim>\<open>_create_compress_path\<close> still looping.
\<close>

definition collect_round ::
  "path \<Rightarrow> path \<Rightarrow> string \<Rightarrow> 32 word list \<Rightarrow> input \<Rightarrow> handle option \<Rightarrow> world \<Rightarrow>
     (error option \<times> handle option \<times> world) option" where
  "collect_round cwd archive_dir room_name draws ev archive w =
     (case ev of
        RotateEvent \<Rightarrow>
          (case archive of
             None \<Rightarrow> Some (None, None, w)
           | Some h \<Rightarrow>
               (case file_flush h w of
                  (Inl e, w1) \<Rightarrow> Some (Some e, Some h, w1)
                | (Inr h1, w1) \<Rightarrow>
                    (let (h2, w2) = file_close h1 w1
                     in case rename draws (name h2) w2 of
                          None \<Rightarrow> None
                        | Some (Inl e, w3) \<Rightarrow> Some (Some e, Some h2, w3)
                        | Some (Inr new_path, w3) \<Rightarrow> Some (None, None, queue_put 0 new_path w3))))
      | Record ts text \<Rightarrow>
          (case (case archive of
                   None \<Rightarrow>
                     (case open_archive cwd archive_dir ts room_name w of
                        (Inl e, w1) \<Rightarrow> (Inl e, w1)
                      | (Inr h, w1) \<Rightarrow> (Inr h, emit (EvInfo (Opened (name h))) w1))
                 | Some h \<Rightarrow> (Inr h, w)) of
             (Inl e, w1) \<Rightarrow> Some (Some e, None, w1)
           | (Inr h, w1) \<Rightarrow>
               (case file_write h (text @ [newline]) w1 of
                  (Inl e, w2) \<Rightarrow> Some (Some e, Some h, w2)
                | (Inr h', w2) \<Rightarrow> Some (None, Some h', w2))))"

text \<open>The \<^verbatim>\<open>finally\<close> of \<^verbatim>\<open>_collect\<close>.\<close>

definition collect_finally :: "handle option \<Rightarrow> world \<Rightarrow> error option \<times> world" where
  "collect_finally archive w =
     (case archive of
        None \<Rightarrow> (None, w)
      | Some h \<Rightarrow>
          (case file_flush h w of
             (Inl e, w1) \<Rightarrow> (Some e, w1)
           | (Inr h1, w1) \<Rightarrow>
               (let (h2, w2) = file_close h1 w1
                in (None, emit (EvInfo (Closed (name h2))) w2))))"

text \<open>
  \<^verbatim>\<open>_collect\<close> over the inputs it is given before the pipeline is shut down, each
  with the draws of its round. The result is the exception that ends the stream, if
  any; one raised in the \<^verbatim>\<open>finally\<close> replaces the one that led there.
\<close>

fun collect_from ::
  "path \<Rightarrow> path \<Rightarrow> string \<Rightarrow> (32 word list \<times> input) list \<Rightarrow> handle option \<Rightarrow> world \<Rightarrow>
     (error option \<times> world) option" where
  "collect_from cwd archive_dir room_name [] archive w = Some (collect_finally archive w)"
| "collect_from cwd archive_dir room_name ((draws, ev) # evs) archive w =
     (case collect_round cwd archive_dir room_name draws ev archive w of
        None \<Rightarrow> None
      | Some (Some e, archive', w') \<Rightarrow>
          (case collect_finally archive' w' of
             (Some e', w'') \<Rightarrow> Some (Some e', w'')
           | (None, w'') \<Rightarrow> Some (Some e, w''))
      | Some (None, archive', w') \<Rightarrow> collect_from cwd archive_dir room_name evs archive' w')"

definition collect ::
  "path \<Rightarrow> path \<Rightarrow> string \<Rightarrow> (32 word list \<times> input) list \<Rightarrow> world \<Rightarrow> (error option \<times> world) option" where
  "collect cwd archive_dir room_name evs w = collect_from cwd archive_dir room_name evs None w"

section \<open>The name of a room's directory\<close>

text \<open>
  A unicode string is the list of its code points; \<^verbatim>\<open>.encode("utf-8")\<close> gives one to
  four bytes for each.
\<close>

type_synonym unicode = "nat list"

definition utf8 :: "nat \<Rightarrow> string" where
  "utf8 cp =
     (if cp < 0x80 then [char_of cp]
      else if cp < 0x800 then [char_of (0xC0 + cp div 64), char_of (0x80 + cp mod 64)]
      else if cp < 0x10000
        then [char_of (0xE0 + cp div 4096), char_of (0x80 + cp div 64 mod 64),
              char_of (0x80 + cp mod 64)]
      else [char_of (0xF0 + cp div 262144 mod 8), char_of (0x80 + cp div 4096 mod 64),
            char_of (0x80 + cp div 64 mod 64), char_of (0x80 + cp mod 64)])"

definition encode_utf8 :: "unicode \<Rightarrow> string" where
  "encode_utf8 u = concat (map utf8 u)"

text \<open>
  \<^verbatim>\<open>urllib.quote(s, safe)\<close> of Python 2: a byte is kept when it is in
  \<^verbatim>\<open>always_safe\<close> or in \<^verbatim>\<open>safe\<close>, and replaced by \<^verbatim>\<open>'%{:02X}'\<close> of its value
  otherwise.
\<close>

definition always_safe :: string where
  "always_safe = ''ABCDEFGHIJKLMNOPQRSTUVWXYZabcdefghijklmnopqrstuvwxyz0123456789_.-''"

definition format_02X :: "nat \<Rightarrow> string" where
  "format_02X n = [''0123456789ABCDEF'' ! (n div 16 mod 16), ''0123456789ABCDEF'' ! (n mod 16)]"

definition quote_byte :: "string \<Rightarrow> char \<Rightarrow> string" where
  "quote_byte safe c =
     (if c \<in> set always_safe \<or> c \<in> set safe then [c] else CHR ''%'' # format_02X (of_char c))"

definition quote :: "string \<Rightarrow> string \<Rightarrow> string" where
  "quote s safe = concat (map (quote_byte safe) s)"

text \<open>
  \<^verbatim>\<open>idiokit.xmpp.jid.JID\<close> is a class of a library the bot imports: a JID has a
  domain and may have a node and a resource, its text is \<^verbatim>\<open>node@domain/resource\<close>,
  \<^verbatim>\<open>bare()\<close> is the JID without the resource, and two JIDs are equal when their
  texts are. \<^verbatim>\<open>JID(jid)\<close> of a JID is that JID.
\<close>

record jid =
  node :: "unicode option"
  domain :: unicode
  resource :: "unicode option"

definition jid_unicode :: "jid \<Rightarrow> unicode" where
  "jid_unicode j =
     (case node j of None \<Rightarrow> [] | Some n \<Rightarrow> n @ [of_char CHR ''@'']) @ domain j @
     (case resource j of None \<Rightarrow> [] | Some r \<Rightarrow> of_char CHR ''/'' # r)"

definition bare :: "jid \<Rightarrow> jid" where
  "bare j = j\<lparr>resource := None\<rparr>"

definition encode_room_jid :: "jid \<Rightarrow> error + string" where
  "encode_room_jid j =
     (let room_jid = j
      in if jid_unicode room_jid \<noteq> jid_unicode (bare room_jid) then Inl ValueError
         else Inr (quote (encode_utf8 (jid_unicode room_jid)) '' @''))"

section \<open>Starting the pipeline of a room\<close>

text \<open>
  What \<^verbatim>\<open>os.walk\<close> finds below a directory: an entry is a directory (\<open>Folder\<close>, with
  whether it is a symbolic link, and its entries in the order \<^verbatim>\<open>os.listdir\<close> gives
  them) or anything else. \<^verbatim>\<open>os.walk\<close> lists the top it is given, names the directories
  and the other entries of each directory it visits, and does not visit a directory
  that is a symbolic link; a top that cannot be listed gives nothing.
\<close>

datatype tree = Other | Folder bool "(string \<times> tree) list"

definition is_dir :: "tree \<Rightarrow> bool" where
  "is_dir t = (case t of Other \<Rightarrow> False | Folder _ _ \<Rightarrow> True)"

definition is_link :: "tree \<Rightarrow> bool" where
  "is_link t = (case t of Other \<Rightarrow> False | Folder l _ \<Rightarrow> l)"

fun walk :: "path \<Rightarrow> tree \<Rightarrow> (path \<times> string list \<times> string list) list"
  and walk_dirs :: "path \<Rightarrow> (string \<times> tree) list \<Rightarrow> (path \<times> string list \<times> string list) list" where
  "walk top0 Other = []"
| "walk top0 (Folder l entries) =
     (top0, map fst (filter (\<lambda>(n, t). is_dir t) entries),
           map fst (filter (\<lambda>(n, t). \<not> is_dir t) entries)) # walk_dirs top0 entries"
| "walk_dirs top0 [] = []"
| "walk_dirs top0 ((n, t) # entries) =
     (if is_dir t \<and> \<not> is_link t then walk (os_path_join top0 n) t else []) @ walk_dirs top0 entries"

text \<open>The two loops at the start of \<^verbatim>\<open>_archive\<close>: the paths they look at, and what they queue.\<close>

definition walked_files :: "path \<Rightarrow> tree \<Rightarrow> path list" where
  "walked_files dir t =
     concat (map (\<lambda>(root, _, filenames). map (os_path_join root) filenames) (walk dir t))"

definition startup_scan :: "path \<Rightarrow> tree \<Rightarrow> world \<Rightarrow> world" where
  "startup_scan dir t w =
     fold (\<lambda>p w. if is_compress_path p then queue_put 0 p w else w) (walked_files dir t) w"

text \<open>
  \<^verbatim>\<open>_archive\<close>, with the tree \<^verbatim>\<open>os.walk\<close> finds at the room's directory. It makes the
  queue, seeds it, and only then makes the three streams.
\<close>

definition archive :: "path \<Rightarrow> jid \<Rightarrow> tree \<Rightarrow> world \<Rightarrow> error + world" where
  "archive archive_dir room_bare_jid t w =
     (let w0 = w\<lparr>queue := []\<rparr>
      in case encode_room_jid room_bare_jid of
           Inl e \<Rightarrow> Inl e
         | Inr room_name \<Rightarrow>
             (let dir = os_path_join archive_dir room_name
              in if dir \<noteq> normpath dir then Inl ValueError
                 else Inr (emit (EvStart RotateStream)
                            (emit (EvStart CompressStream)
                              (emit (EvStart CollectStream) (startup_scan dir t w0))))))"

section \<open>Notions used in the proofs\<close>

text \<open>Reading a decimal number: the inverse of \<^verbatim>\<open>{:08d}\<close>.\<close>

definition digit_value :: "char \<Rightarrow> nat" where
  "digit_value c = of_char c - 48"

definition undigits :: "string \<Rightarrow> nat" where
  "undigits s = foldl (\<lambda>a c. 10 * a + digit_value c) 0 s"

text \<open>
  The path \<^verbatim>\<open>_unique_writable_file\<close> tries when \<^verbatim>\<open>count\<close> is \<open>n\<close>: the plain name
  first, then the names with the count.
\<close>

definition gz_candidate :: "path \<Rightarrow> string \<Rightarrow> string \<Rightarrow> nat \<Rightarrow> path" where
  "gz_candidate directory prefix suffix n =
     os_path_join directory
       (if n = 0 then prefix @ suffix else prefix @ ''-'' @ format_08d n @ suffix)"

text \<open>The lines that reach the gzip stream, and the world when both files are closed.\<close>

definition written_lines :: "io_script \<Rightarrow> string \<Rightarrow> string list" where
  "written_lines script s =
     (case stream_fault script of None \<Rightarrow> file_lines s | Some (k, _) \<Rightarrow> take k (file_lines s))"

definition closed_world :: "(string \<Rightarrow> bool \<Rightarrow> string) \<Rightarrow> io_script \<Rightarrow> path \<Rightarrow> string \<Rightarrow> path \<Rightarrow> world \<Rightarrow> world" where
  "closed_world gz script p s out w2 =
     w2\<lparr>files := (files w2)(out \<mapsto>
            File (gz (concat (written_lines script s)) (finish_fault script = None))),
         trace := trace w2 @ map (EvWrite out) (written_lines script s) @
            (if finish_fault script = None then [EvFinish out] else []) @ [EvClose out, EvClose p]\<rparr>"

definition stream_error :: "io_script \<Rightarrow> error option" where
  "stream_error script =
     (case finish_fault script of
        Some e \<Rightarrow> Some (IOError e)
      | None \<Rightarrow> (case stream_fault script of Some (_, e) \<Rightarrow> Some (IOError e) | None \<Rightarrow> None))"

text \<open>
  Calls of \<^verbatim>\<open>compress\<close> one after the other, each with what the environment does to
  it, whatever each returns or raises; and the paths that were returned.
\<close>

fun compress_each ::
  "(string \<Rightarrow> bool \<Rightarrow> string) \<Rightarrow> (io_script \<times> path) list \<Rightarrow> world \<Rightarrow>
     ((error + path) list \<times> world) option" where
  "compress_each gz [] w = Some ([], w)"
| "compress_each gz ((script, p) # jobs) w =
     (case compress gz script p w of
        None \<Rightarrow> None
      | Some (r, w') \<Rightarrow>
          (case compress_each gz jobs w' of
             None \<Rightarrow> None
           | Some (rs, w'') \<Rightarrow> Some (r # rs, w'')))"

definition outputs :: "(error + path) list \<Rightarrow> path list" where
  "outputs rs = concat (map (\<lambda>r. case r of Inl _ \<Rightarrow> [] | Inr out \<Rightarrow> [out]) rs)"

text \<open>
  Compressions that run at the same time share the file system, and each call of
  \<^verbatim>\<open>os.open\<close> is one atomic step. A call of \<^verbatim>\<open>_unique_writable_file\<close> that is under
  way is the state of its loop: the arguments, \<^verbatim>\<open>count\<close>, \<^verbatim>\<open>path\<close>, and the outcome once
  the loop has ended. \<open>attempt_round\<close> is one round of the loop, with its one call of
  \<^verbatim>\<open>os.open\<close>; \<open>interleave\<close> runs the rounds of several calls in the order a schedule
  gives (the schedule names, step by step, the call that makes its next round).
\<close>

record attempt =
  at_directory :: path
  at_prefix :: string
  at_suffix :: string
  at_count :: nat
  at_path :: path
  at_result :: "(error + path) option"

definition start_attempt :: "path \<Rightarrow> string \<Rightarrow> string \<Rightarrow> attempt" where
  "start_attempt directory prefix suffix =
     \<lparr>at_directory = directory, at_prefix = prefix, at_suffix = suffix, at_count = 0,
      at_path = os_path_join directory (prefix @ suffix), at_result = None\<rparr>"

definition attempt_round :: "attempt \<Rightarrow> world \<Rightarrow> attempt \<times> world" where
  "attempt_round a w =
     (case at_result a of
        Some _ \<Rightarrow> (a, w)
      | None \<Rightarrow>
          (case os_open_excl (at_path a) w of
             (Inr _, w') \<Rightarrow> (a\<lparr>at_result := Some (Inr (at_path a))\<rparr>, w')
           | (Inl e, w') \<Rightarrow>
               if e \<noteq> OSError EEXIST then (a\<lparr>at_result := Some (Inl e)\<rparr>, w')
               else (a\<lparr>at_count := at_count a + 1,
                       at_path := os_path_join (at_directory a)
                         (at_prefix a @ ''-'' @ format_08d (at_count a + 1) @ at_suffix a)\<rparr>, w')))"

fun interleave :: "nat list \<Rightarrow> attempt list \<Rightarrow> world \<Rightarrow> attempt list \<times> world" where
  "interleave [] as w = (as, w)"
| "interleave (i # sched) as w =
     (if i < length as
      then (let (a', w') = attempt_round (as ! i) w in interleave sched (as[i := a']) w')
      else interleave sched as w)"

text \<open>The paths taken so far are files, and no two calls have taken the same path.\<close>

definition taken_apart :: "attempt list \<Rightarrow> world \<Rightarrow> bool" where
  "taken_apart as w \<longleftrightarrow>
     (\<forall>i<length as. \<forall>p. at_result (as ! i) = Some (Inr p) \<longrightarrow> files w p \<noteq> None) \<and>
     (\<forall>i<length as. \<forall>j<length as. \<forall>p q.
        i \<noteq> j \<and> at_result (as ! i) = Some (Inr p) \<and> at_result (as ! j) = Some (Inr q) \<longrightarrow> p \<noteq> q)"




section \<open>Examples\<close>



text \<open>
  A directory with a rotated file of three lines and the compressed file of an earlier
  rotation of the same day; and a disk that is full when the second line is written.
\<close>

definition day_world :: world where
  "day_world =
     \<lparr>files = empty_fs(''/a'' \<mapsto> Dir, ''/a/01.json.gz'' \<mapsto> File ''old'',
        ''/a/01.json.compress-0123abcd'' \<mapsto> File ''x\<newline>y\<newline>z''),
      trace = [], queue = []\<rparr>"

definition disk_full :: io_script where
  "disk_full = \<lparr>stream_fault = Some (1, ENOSPC), finish_fault = None, remove_fault = None\<rparr>"

text \<open>The file of the day, open in the collector with one event written to it.\<close>

definition open_handle :: handle where
  "open_handle = \<lparr>name = ''/arch/room@c.d/2026/11/03.json'', pending = [], closed = False\<rparr>"

definition writing_world :: world where
  "writing_world =
     \<lparr>files = empty_fs(''/arch/room@c.d/2026/11'' \<mapsto> Dir,
        ''/arch/room@c.d/2026/11/03.json'' \<mapsto> File ''{}\<newline>''),
      trace = [], queue = []\<rparr>"

text \<open>Two rotated files of the same day, from two rotations, and no compressed file yet.\<close>

definition twice_world :: world where
  "twice_world =
     \<lparr>files = empty_fs(''/a'' \<mapsto> Dir,
        ''/a/01.json.compress-0123abcd'' \<mapsto> File ''x\<newline>'',
        ''/a/01.json.compress-89abcdef'' \<mapsto> File ''y\<newline>''),
      trace = [], queue = []\<rparr>"


section \<open>Paths: splitting what was joined\<close>

lemma drop_rfind1: "drop (rfind1 c p) p = rev (takeWhile (\<lambda>x. x \<noteq> c) (rev p))"
proof -
  have "rev p = takeWhile (\<lambda>x. x \<noteq> c) (rev p) @ dropWhile (\<lambda>x. x \<noteq> c) (rev p)"
    by simp
  then have "p = rev (dropWhile (\<lambda>x. x \<noteq> c) (rev p)) @ rev (takeWhile (\<lambda>x. x \<noteq> c) (rev p))"
    by (metis rev_append rev_rev_ident)
  moreover have "rfind1 c p = length (rev (dropWhile (\<lambda>x. x \<noteq> c) (rev p)))"
    unfolding rfind1_def
    by (metis (no_types, lifting) add_diff_cancel_left' length_append length_rev
        takeWhile_dropWhile_id)
  ultimately show ?thesis
    by (metis append_eq_conv_conj)
qed

lemma tail_no_slash: "CHR ''/'' \<notin> set (snd (os_path_split p))"
proof -
  have "snd (os_path_split p) = rev (takeWhile (\<lambda>x. x \<noteq> CHR ''/'') (rev p))"
    by (simp add: os_path_split_def Let_def drop_rfind1)
  then show ?thesis
    by (auto dest: set_takeWhileD)
qed

lemma dropWhile_all: "dropWhile (\<lambda>x. x = c) s = [] \<Longrightarrow> s = replicate (length s) c"
  by (induction s) (auto split: if_splits)

lemma rstrip_last: 
  assumes "s \<noteq> replicate (length s) c" 
  shows "rstrip c s \<noteq> [] \<and> last (rstrip c s) \<noteq> c"
proof -
  let ?d = "dropWhile (\<lambda>x. x = c) (rev s)"
  have "rev s \<noteq> replicate (length (rev s)) c" using assms
    by (metis length_rev rev_replicate rev_rev_ident)
  then have ne: "?d \<noteq> []" using dropWhile_all[of c "rev s"] by blast
  then have "hd ?d \<noteq> c" using hd_dropWhile by blast
  then show ?thesis using ne by (simp add: rstrip_def last_rev)
qed

lemma head_ok_split: "head_ok (fst (os_path_split p))"
  using rstrip_last 
  by (auto simp: head_ok_def os_path_split_def Let_def)

lemma rfind1_append_no: "c \<notin> set t \<Longrightarrow> rfind1 c (h @ c # t) = Suc (length h)"
proof -
  assume "c \<notin> set t"
  then have "takeWhile (\<lambda>x. x \<noteq> c) (rev t @ c # rev h) = rev t"
    by (subst takeWhile_append2) auto
  then show ?thesis by (simp add: rfind1_def)
qed
   
lemma rfind1_none: "c \<notin> set t \<Longrightarrow> rfind1 c t = 0"
proof -
  assume "c \<notin> set t"
  then have tw: "takeWhile (\<lambda>x. x \<noteq> c) (rev t) = rev t"
    by (subst takeWhile_eq_all_conv) auto
  show ?thesis unfolding rfind1_def tw by simp
qed

lemma rfind1_last: "c \<notin> set t \<Longrightarrow> h \<noteq> [] \<Longrightarrow> last h = c \<Longrightarrow> rfind1 c (h @ t) = length h"
  using rfind1_append_no[of c t "butlast h"]
  by (cases h rule: rev_cases) auto

lemma split_join:
  assumes h: "head_ok h" and t: "CHR ''/'' \<notin> set t"
  shows "os_path_split (os_path_join h t) = (h, t)"
proof -
  have nst: "\<not> startswith CHR ''/'' t" using t by (cases t) (auto simp: startswith_def)
  consider (empty) "h = []" | (slashes) "h \<noteq> []" "h = replicate (length h) CHR ''/''" 
    | (proper) "h \<noteq> []" "h \<noteq> replicate (length h) CHR ''/''" "last h \<noteq> CHR ''/''"
    using h unfolding head_ok_def by blast
  then show ?thesis
  proof cases
    case empty
    then show ?thesis using nst t by (simp add: os_path_join_def os_path_split_def rfind1_none)
  next
    case slashes
    have lh: "last h = CHR ''/''"
      by (metis slashes last_replicate length_0_conv)
    have e: "endswith CHR ''/'' h" using slashes(1) lh
      by (cases h rule: rev_cases) (auto simp: endswith_def)
    have j: "os_path_join h t = h @ t"
      using nst e by (simp add: os_path_join_def)
    have r: "rfind1 CHR ''/'' (h @ t) = length h"
      using rfind1_last[OF t slashes(1) lh] .
    have eqT: "(h = replicate (length h) CHR ''/'') = True" by (rule eqTrueI) (rule slashes(2))
    show ?thesis unfolding os_path_split_def j r Let_def
      by (simp add: eqT)
  next
    case proper
    then have e: "\<not> endswith CHR ''/'' h" 
      by (cases h rule: rev_cases) (auto simp: endswith_def)
    have j: "os_path_join h t = h @ CHR ''/'' # t"
      using nst e proper by (simp add: os_path_join_def)
    have r: "rfind1 CHR ''/'' (os_path_join h t) = Suc (length h)"
      unfolding j using rfind1_append_no[OF t] by simp
    have tk: "take (Suc (length h)) (h @ CHR ''/'' # t) = h @ ''/''" by simp
    have ns: "h @ ''/'' \<noteq> replicate (length (h @ ''/'')) CHR ''/''"
    proof
      assume a: "h @ ''/'' = replicate (length (h @ ''/'')) CHR ''/''"
      have "last h \<in> set (h @ ''/'')" using last_in_set[OF proper(1)] by simp
      then have "last h \<in> set (replicate (length (h @ ''/'')) CHR ''/'')" by (subst a[symmetric])
      then show False using proper(3) by simp
    qed
    have rs: "rstrip CHR ''/'' (h @ ''/'') = h"
      using proper(1,3) by (cases h rule: rev_cases) (simp_all add: rstrip_def)
    show ?thesis unfolding os_path_split_def r Let_def unfolding j tk using ns rs
      by simp
  qed
qed

lemma hexdigit_in: "hexdigit d \<in> set ''0123456789abcdef''"
  unfolding hexdigit_def by (rule nth_mem) simp

lemma format_08x_length: "length (format_08x w) = 8"
  by (simp add: format_08x_def)

lemma format_08x_chars: "set (format_08x w) \<subseteq> set ''0123456789abcdef''"
  using hexdigit_in by (auto simp: format_08x_def)

lemma lower_hex_is_hex: "c \<in> set ''0123456789abcdef'' \<Longrightarrow> is_hex c"
  apply simp
  apply (elim disjE)
  apply (simp_all add: is_hex_def ascii_lower_def)
  done

lemma format_08x_hex: "list_all is_hex (format_08x w)"
  using format_08x_chars lower_hex_is_hex by (auto simp: list_all_iff)

lemma tag_end_tag: "length h = 8 \<Longrightarrow> list_all is_hex h \<Longrightarrow> tag_end (''.compress-'' @ h)"
  by (simp add: tag_end_def ascii_lower_def)

lemma tag_end_short: "length r < 18 \<Longrightarrow> \<not> tag_end r"
  by (simp add: tag_end_def)

lemma greedy_down: "length s - 18 \<le> k \<Longrightarrow> greedy k s = greedy (length s - 18) s"
proof (induction k)
  case 0
  then show ?case by simp
next
  case (Suc k)
  show ?case
  proof (cases "Suc k = length s - 18")
    case True
    then show ?thesis by simp
  next
    case False
    with Suc.prems have "length s - 18 \<le> k" by simp
    moreover have "\<not> tag_end (drop (Suc k) s)"
      by (rule tag_end_short) (use False Suc.prems in simp)
    ultimately show ?thesis using Suc.IH by simp
  qed
qed

lemma greedy_exact:
  assumes "newline \<notin> set g" and "tag_end t"
  shows "greedy (length g) (g @ t) = Some g"
  using assms by (cases g) auto

lemma re_match_tagged:
  assumes g: "newline \<notin> set g" and h: "length h = 8" "list_all is_hex h"
  shows "re_match_compress (g @ ''.compress-'' @ h) = Some g"
proof -
  let ?s = "g @ ''.compress-'' @ h"
  have len: "length ?s - 18 = length g" using h by simp
  have "greedy (length ?s) ?s = greedy (length ?s - 18) ?s"
    by (rule greedy_down) simp
  also have "\<dots> = greedy (length g) ?s" by (simp only: len)
  also have "\<dots> = Some g" using greedy_exact[OF g tag_end_tag[OF h]] .
  finally show ?thesis by (simp add: re_match_compress_def)
qed

lemma greedy_Some:
  "greedy k s = Some g \<Longrightarrow> g = take (length g) s \<and> length g \<le> k \<and> newline \<notin> set g \<and> tag_end (drop (length g) s)"
proof (induction k)
  case 0
  then show ?case by (auto split: if_splits)
next
  case (Suc k)
  show ?case
  proof (cases "newline \<notin> set (take (Suc k) s) \<and> tag_end (drop (Suc k) s)")
    case True
    then have gk: "g = take (Suc k) s" using Suc.prems by simp
    have "Suc k \<le> length s"
    proof (rule ccontr)
      assume "\<not> Suc k \<le> length s"
      then have "drop (Suc k) s = []" by simp
      then show False using True tag_end_short[of "[]"] by simp
    qed
    then have "length g = Suc k" using gk by simp
    then show ?thesis using True gk by simp
  next
    case False
    then have "greedy k s = Some g" using Suc.prems by auto
    then show ?thesis using Suc.IH by auto
  qed
qed

lemma tag_end_last: 
  assumes "tag_end r" 
  shows "r \<noteq> [] \<and> (is_hex (last r) \<or> last r = newline)"
proof -
  from assms have len: "18 \<le> length r" and hx: "list_all is_hex (take 8 (drop 10 r))"
    and e: "drop 18 r = [] \<or> drop 18 r = [newline]"
    by (simp_all add: tag_end_def)
  from len have ne: "r \<noteq> []" by auto
  from e show ?thesis
  proof
    assume "drop 18 r = []"
    then have l: "length r = 18" using len by simp
    then have "last r = (take 8 (drop 10 r)) ! 7"
      using ne by (simp add: last_conv_nth)
    moreover have "(take 8 (drop 10 r)) ! 7 \<in> set (take 8 (drop 10 r))"
      by (rule nth_mem) (simp add: l)
    ultimately show ?thesis using hx ne by (simp add: list_all_iff)
  next
    assume d: "drop 18 r = [newline]"
    have "r = take 18 r @ drop 18 r" by simp
    then have "last r = last (take 18 r @ [newline])" using d by metis
    then show ?thesis using ne by simp
  qed
qed

lemma tail_last:
  assumes "p \<noteq> []" and "last p \<noteq> CHR ''/''"
  shows "snd (os_path_split p) \<noteq> [] \<and> last (snd (os_path_split p)) = last p"
proof -
  have s: "snd (os_path_split p) = rev (takeWhile (\<lambda>x. x \<noteq> CHR ''/'') (rev p))"
    by (simp add: os_path_split_def Let_def drop_rfind1)
  obtain ys y where p: "p = ys @ [y]" using assms(1) by (cases p rule: rev_cases) auto
  then have "y \<noteq> CHR ''/''" using assms(2) by simp
  then show ?thesis
    apply (simp only: s)
    apply (simp add: p)
    done
qed

lemma re_match_Some:
  assumes "re_match_compress s = Some g"
  shows "\<exists>r. s = g @ r \<and> tag_end r \<and> newline \<notin> set g"
proof -
  from assms have "g = take (length g) s \<and> newline \<notin> set g \<and> tag_end (drop (length g) s)"
    using greedy_Some[of "length s" s g] by (simp add: re_match_compress_def)
  then show ?thesis by (metis append_take_drop_id)
qed

lemma not_compress_path_last:
  assumes "p \<noteq> []" and "last p \<noteq> CHR ''/''" and "\<not> is_hex (last p)" and "last p \<noteq> newline"
  shows "split_compress_path p = Inl ValueError"
proof (cases "re_match_compress (snd (os_path_split p))")
  case None
  then show ?thesis by (cases "os_path_split p") (simp add: split_compress_path_def)
next
  case (Some g)
  then obtain r where r: "snd (os_path_split p) = g @ r" "tag_end r"
    using re_match_Some by blast
  then have "r \<noteq> []" "is_hex (last r) \<or> last r = newline" using tag_end_last by auto
  then have "is_hex (last (snd (os_path_split p))) \<or> last (snd (os_path_split p)) = newline"
    using r(1) by simp
  then show ?thesis using tail_last[OF assms(1,2)] assms(3,4) by simp
qed

lemma candidate_split:
  "os_path_split (compress_candidate p r) =
     (fst (os_path_split p), snd (os_path_split p) @ ''.compress-'' @ format_08x r)"
proof -
  have "CHR ''/'' \<notin> set (format_08x r)" using format_08x_chars[of r] by auto
  then have "CHR ''/'' \<notin> set (snd (os_path_split p) @ ''.compress-'' @ format_08x r)"
    using tail_no_slash[of p] by simp
  from split_join[OF head_ok_split[of p] this] show ?thesis
    by (cases "os_path_split p") (simp add: compress_candidate_def)
qed

lemma create_Some:
  "create_compress_path f p rs = Some q \<Longrightarrow> \<exists>r\<in>set rs. q = compress_candidate p r \<and> \<not> isfile f q"
  by (induction rs) (auto simp: Let_def split: if_splits)

lemma create_returns:
  "\<exists>r\<in>set rs. \<not> isfile f (compress_candidate p r) \<Longrightarrow> \<exists>q. create_compress_path f p rs = Some q"
  by (induction rs) (auto simp: Let_def)

section \<open>The rotation signal: the first poll\<close>

lemma rotate_from_Some:
  "rotate_from (Some d) ds = map (\<lambda>(prev, now). now \<noteq> prev) (zip (d # ds) ds)"
  by (induction ds arbitrary: d) (auto simp: rotate_poll_def)

text \<open>
  Claim C1, as the code has it. The claim says that the first day \<^verbatim>\<open>rotate\<close> observes
  is a baseline for which nothing is sent. In the code \<^verbatim>\<open>last\<close> starts as \<^verbatim>\<open>None\<close>,
  which differs from every day: over the days 3, 3, 4 the first poll sends, the second
  does not, the third does.
\<close>

theorem rotate_first_poll_sends: "rotate [3, 3, 4] = [True, False, True]"
  by (simp add: rotate_def rotate_poll_def)

text \<open>
  Claim C1, amended: \<^verbatim>\<open>rotate\<close> sends the event at its first poll, and after that at
  exactly those polls that observe a day different from the day of the poll before;
  each poll sends at most once.
\<close>

theorem rotate_sends_on_change:
  "rotate [] = [] \<and>
   rotate (d # ds) = True # map (\<lambda>(prev, now). now \<noteq> prev) (zip (d # ds) ds)"
  by (simp add: rotate_def rotate_poll_def rotate_from_Some)

section \<open>The collector: a rotation with no file open\<close>

text \<open>
  Claim C9: when the rotate event arrives while \<^verbatim>\<open>archive\<close> is \<^verbatim>\<open>None\<close>, the round
  ends without an exception, \<^verbatim>\<open>archive\<close> is still \<^verbatim>\<open>None\<close>, and the world is the one
  before: the same files, the same queue, and nothing added to the trace.
\<close>

theorem collect_rotation_idle:
  "collect_round cwd archive_dir room_name draws RotateEvent None w = Some (None, None, w)"
  by (simp add: collect_round_def)

section \<open>The name of a room's directory\<close>

lemma format_02X_chars: "set (format_02X n) \<subseteq> set ''0123456789ABCDEF''"
proof -
  have "''0123456789ABCDEF'' ! (k mod 16) \<in> set ''0123456789ABCDEF''" for k :: nat
    by (rule nth_mem) simp
  from this[of "n div 16"] this[of n] show ?thesis
    by (simp add: format_02X_def)
qed

lemma quote_byte_chars: "set (quote_byte '' @'' c) \<subseteq> set (always_safe @ '' @%'')"
proof (cases "c \<in> set always_safe \<or> c \<in> set '' @''")
  case True
  then show ?thesis by (auto simp: quote_byte_def)
next
  case False
  have "set ''0123456789ABCDEF'' \<subseteq> set (always_safe @ '' @%'')"
    by (simp add: always_safe_def)
  with format_02X_chars[of "of_char c"] have "set (format_02X (of_char c)) \<subseteq> set (always_safe @ '' @%'')"
    by blast
  with False show ?thesis by (simp add: quote_byte_def)
qed

lemma quote_chars: "set (quote s '' @'') \<subseteq> set (always_safe @ '' @%'')"
  using quote_byte_chars by (auto simp: quote_def)

lemma slash_not_kept: "CHR ''/'' \<notin> set (always_safe @ '' @%'')"
  by (simp add: always_safe_def)

lemma jid_bare_iff: "jid_unicode j = jid_unicode (bare j) \<longleftrightarrow> resource j = None"
  by (cases "resource j") (auto simp: jid_unicode_def bare_def)

text \<open>
  Claim C8: \<^verbatim>\<open>_encode_room_jid\<close> raises \<open>ValueError\<close> for every JID that differs from
  its bare JID (every JID with a resource). For a bare JID it returns the UTF-8 bytes of
  the JID's text, each byte quoted on its own: a byte of \<^verbatim>\<open>always_safe\<close>, \<open>@\<close> and the
  space are kept, every other byte becomes \<open>%\<close> and its two hexadecimal digits, the
  slash among them (\<open>%2F\<close>). So the result has no slash, and no byte other than the
  kept ones and \<open>%\<close>.
\<close>

theorem encode_room_jid_quotes:
  "(jid_unicode j \<noteq> jid_unicode (bare j) \<longrightarrow> encode_room_jid j = Inl ValueError) \<and>
   (resource j \<noteq> None \<longrightarrow> encode_room_jid j = Inl ValueError) \<and>
   (jid_unicode j = jid_unicode (bare j) \<longrightarrow>
      encode_room_jid j = Inr (concat (map (quote_byte '' @'') (encode_utf8 (jid_unicode j))))) \<and>
   (\<forall>s. encode_room_jid j = Inr s \<longrightarrow>
      CHR ''/'' \<notin> set s \<and> set s \<subseteq> set (always_safe @ '' @%'')) \<and>
   quote_byte '' @'' CHR ''@'' = ''@'' \<and>
   quote_byte '' @'' CHR '' '' = '' '' \<and>
   quote_byte '' @'' CHR ''/'' = ''%2F'' \<and>
   (\<forall>c. c \<notin> set always_safe \<and> c \<noteq> CHR ''@'' \<and> c \<noteq> CHR '' '' \<longrightarrow>
      quote_byte '' @'' c = CHR ''%'' # format_02X (of_char c))"
proof -
  have raise: "jid_unicode j \<noteq> jid_unicode (bare j) \<Longrightarrow> encode_room_jid j = Inl ValueError"
    by (simp add: encode_room_jid_def)
  have ret: "jid_unicode j = jid_unicode (bare j) \<Longrightarrow>
      encode_room_jid j = Inr (concat (map (quote_byte '' @'') (encode_utf8 (jid_unicode j))))"
    by (simp add: encode_room_jid_def quote_def Let_def)
  have safe: "CHR ''/'' \<notin> set s \<and> set s \<subseteq> set (always_safe @ '' @%'')"
    if "encode_room_jid j = Inr s" for s
  proof -
    from that have "s = quote (encode_utf8 (jid_unicode j)) '' @''"
      by (simp add: encode_room_jid_def Let_def split: if_splits)
    then have "set s \<subseteq> set (always_safe @ '' @%'')" using quote_chars by simp
    then show ?thesis using slash_not_kept by blast
  qed
  have kept: "quote_byte '' @'' CHR ''@'' = ''@''" "quote_byte '' @'' CHR '' '' = '' ''"
    by (simp_all add: quote_byte_def)
  have slash: "quote_byte '' @'' CHR ''/'' = ''%2F''"
    by (simp add: quote_byte_def always_safe_def format_02X_def)
  have other: "quote_byte '' @'' c = CHR ''%'' # format_02X (of_char c)"
    if "c \<notin> set always_safe \<and> c \<noteq> CHR ''@'' \<and> c \<noteq> CHR '' ''" for c
    using that by (simp add: quote_byte_def)
  show ?thesis
    apply (intro conjI allI impI)
    subgoal by (rule raise)
    subgoal using raise jid_bare_iff[of j] by simp
    subgoal by (rule ret)
    subgoal for s using safe[of s] by simp
    subgoal for s using safe[of s] by simp
    subgoal by (rule kept(1))
    subgoal by (rule kept(2))
    subgoal by (rule slash)
    subgoal for c by (rule other)
    done
qed

theorem encode_room_jid_quotes_witness:
  "encode_room_jid \<lparr>node = Some [114, 111, 111, 109, 32, 47, 228], domain = [99, 46, 100],
      resource = Some [120]\<rparr> = Inl ValueError \<and>
   encode_room_jid \<lparr>node = Some [114, 111, 111, 109, 32, 47, 228], domain = [99, 46, 100],
      resource = None\<rparr> = Inr ''room %2F%C3%A4@c.d'' \<and>
   CHR ''/'' \<notin> set ''room %2F%C3%A4@c.d'' \<and>
   quote_byte '' @'' (CHR 0xE4) = ''%E4''"
proof -
  let ?full = "\<lparr>node = Some [114, 111, 111, 109, 32, 47, 228], domain = [99, 46, 100],
      resource = Some [120::nat]\<rparr>"
  let ?bare = "\<lparr>node = Some [114, 111, 111, 109, 32, 47, 228], domain = [99, 46, 100],
      resource = None :: nat list option\<rparr>"
  have r: "resource ?full \<noteq> None" by simp
  have b: "jid_unicode ?bare = jid_unicode (bare ?bare)" by (simp add: bare_def)
  have q: "concat (map (quote_byte '' @'') (encode_utf8 (jid_unicode ?bare))) = ''room %2F%C3%A4@c.d''"
    by (simp add: jid_unicode_def encode_utf8_def utf8_def char_of_def bit_0 quote_byte_def
        always_safe_def format_02X_def)
  have c: "CHR 0xE4 \<notin> set always_safe \<and> CHR 0xE4 \<noteq> CHR ''@'' \<and> CHR 0xE4 \<noteq> CHR '' ''"
    by (simp add: always_safe_def)
  have f: "format_02X (of_char (CHR 0xE4)) = ''E4''" by (simp add: format_02X_def)
  show ?thesis
    using encode_room_jid_quotes[of ?full] encode_room_jid_quotes[of ?bare] r b q c f
    by simp
qed

section \<open>The tag of a rotated file, added and removed\<close>

lemma split_compress_candidate:
  assumes "newline \<notin> set (snd (os_path_split p))"
  shows "split_compress_path (compress_candidate p r) = Inr (os_path_split p)"
proof -
  have "re_match_compress (snd (os_path_split p) @ ''.compress-'' @ format_08x r) =
      Some (snd (os_path_split p))"
    by (rule re_match_tagged[OF assms format_08x_length format_08x_hex])
  then show ?thesis
    by (simp add: split_compress_path_def candidate_split)
qed

text \<open>
  Claim C7, as the code has it. The dot of the pattern does not match a newline, so
  the tag does not come off a file name that has one: for the path \<open>a\<newline>b\<close>, with
  the draw \<open>0x0123abcd\<close> and no file in the way, \<^verbatim>\<open>_create_compress_path\<close> returns
  \<open>a\<newline>b.compress-0123abcd\<close>, and \<^verbatim>\<open>_split_compress_path\<close> raises \<open>ValueError\<close>
  for that path.
\<close>

theorem create_split_newline:
  "create_compress_path empty_fs ''a\<newline>b'' [0x0123abcd] = Some ''a\<newline>b.compress-0123abcd'' \<and>
   split_compress_path ''a\<newline>b.compress-0123abcd'' = Inl ValueError"
proof -
  have "create_compress_path empty_fs ''a\<newline>b'' [0x0123abcd] = Some ''a\<newline>b.compress-0123abcd''"
    by (simp add: compress_candidate_def os_path_split_def os_path_join_def rfind1_def
        format_08x_def hexdigit_def isfile_def empty_fs_def startswith_def endswith_def)
  moreover have "split_compress_path ''a\<newline>b.compress-0123abcd'' = Inl ValueError"
    by (simp add: split_compress_path_def os_path_split_def rfind1_def re_match_compress_def
        tag_end_def is_hex_def ascii_lower_def newline_def)
  ultimately show ?thesis by simp
qed

text \<open>
  Claim C7, amended: for every path whose file name has no newline, when one of the
  draws gives a name that is not an existing file \<^verbatim>\<open>_create_compress_path\<close> returns a
  path that is not an existing file, in the same directory, whose file name is the
  file name of the path followed by \<open>.compress-\<close> and eight hexadecimal digits, and
  \<^verbatim>\<open>_split_compress_path\<close> of that path is the directory and the file name of the path.
\<close>

theorem create_compress_path_roundtrip:
  assumes "newline \<notin> set (snd (os_path_split p))"
    and "\<exists>r\<in>set draws. \<not> isfile f (compress_candidate p r)"
  shows "\<exists>q h. create_compress_path f p draws = Some q \<and> \<not> isfile f q \<and>
           length h = 8 \<and> set h \<subseteq> set ''0123456789abcdef'' \<and>
           os_path_split q = (fst (os_path_split p), snd (os_path_split p) @ ''.compress-'' @ h) \<and>
           split_compress_path q = Inr (os_path_split p)"
proof -
  from create_returns[OF assms(2)] obtain q where q: "create_compress_path f p draws = Some q"
    by blast
  from create_Some[OF q] obtain r where r: "q = compress_candidate p r" "\<not> isfile f q"
    by blast
  have "os_path_split q =
      (fst (os_path_split p), snd (os_path_split p) @ ''.compress-'' @ format_08x r)"
    unfolding r(1) by (rule candidate_split)
  moreover have "split_compress_path q = Inr (os_path_split p)"
    unfolding r(1) by (rule split_compress_candidate[OF assms(1)])
  ultimately show ?thesis
    using q r(2) format_08x_length[of r] format_08x_chars[of r] by blast
qed

theorem create_compress_path_roundtrip_witness:
  "newline \<notin> set (snd (os_path_split ''path/to/test.json'')) \<and>
   (\<exists>r\<in>set [0x0123abcd]. \<not> isfile empty_fs (compress_candidate ''path/to/test.json'' r)) \<and>
   (\<exists>q h. create_compress_path empty_fs ''path/to/test.json'' [0x0123abcd] = Some q \<and>
      \<not> isfile empty_fs q \<and> length h = 8 \<and> set h \<subseteq> set ''0123456789abcdef'' \<and>
      os_path_split q = (''path/to'', ''test.json.compress-'' @ h) \<and>
      split_compress_path q = Inr (''path/to'', ''test.json''))"
proof -
  have s: "os_path_split ''path/to/test.json'' = (''path/to'', ''test.json'')"
    by (simp add: os_path_split_def rfind1_def rstrip_def)
  have n: "newline \<notin> set (snd (os_path_split ''path/to/test.json''))"
    by (simp add: s newline_def)
  have d: "\<exists>r\<in>set [0x0123abcd]. \<not> isfile empty_fs (compress_candidate ''path/to/test.json'' r)"
    by (simp add: isfile_def empty_fs_def)
  show ?thesis
    using create_compress_path_roundtrip[OF n d] n d by (simp add: s)
qed

section \<open>The compressor and a path it cannot open\<close>

lemma compress_unopened:
  assumes "\<forall>s. files w p \<noteq> Some (File s)"
  shows "\<exists>e. (e = ENOENT \<or> e = EISDIR) \<and> compress gz script p w = Some (Inl (IOError e), w)"
proof (cases "files w p")
  case None
  then show ?thesis by (simp add: compress_def os_open_read_def)
next
  case (Some n)
  with assms have "n = Dir" by (cases n) auto
  with Some show ?thesis by (simp add: compress_def os_open_read_def)
qed

text \<open>
  Claim C10: \<^verbatim>\<open>compress\<close> opens the path before it looks at its name. For a path that
  is not an existing regular file (nothing there, or a directory), whatever its name,
  \<^verbatim>\<open>compress\<close> raises the \<open>IOError\<close> of \<^verbatim>\<open>open\<close>, not \<open>ValueError\<close>, and changes
  nothing. The round of the worker does not catch it and logs nothing, and the
  worker's loop ends with that exception, the paths after it left alone.
\<close>

theorem compress_unopened_path:
  assumes "\<forall>s. files w p \<noteq> Some (File s)"
  shows "\<exists>e. (e = ENOENT \<or> e = EISDIR) \<and>
           compress gz script p w = Some (Inl (IOError e), w) \<and>
           compress_round gz script p w = Some (Inl (IOError e), w) \<and>
           compress_worker gz ((script, p) # jobs) w = Some (Inl (IOError e), w) \<and>
           IOError e \<noteq> ValueError"
proof -
  from compress_unopened[OF assms, of gz script] obtain e where
    e: "e = ENOENT \<or> e = EISDIR" and c: "compress gz script p w = Some (Inl (IOError e), w)"
    by blast
  from c have "compress_round gz script p w = Some (Inl (IOError e), w)"
    by (simp add: compress_round_def)
  with e c show ?thesis by simp
qed

theorem compress_unopened_path_witness:
  "(\<forall>s. files \<lparr>files = empty_fs, trace = [], queue = []\<rparr> ''/a/03.json'' \<noteq> Some (File s)) \<and>
   compress stored_gz no_faults ''/a/03.json'' \<lparr>files = empty_fs, trace = [], queue = []\<rparr>
     = Some (Inl (IOError ENOENT), \<lparr>files = empty_fs, trace = [], queue = []\<rparr>) \<and>
   compress_worker stored_gz [(no_faults, ''/a/03.json''), (no_faults, ''/a/02.json.compress-0123abcd'')]
     \<lparr>files = empty_fs, trace = [], queue = []\<rparr>
     = Some (Inl (IOError ENOENT), \<lparr>files = empty_fs, trace = [], queue = []\<rparr>)"
proof -
  let ?w = "\<lparr>files = empty_fs, trace = [], queue = []\<rparr>"
  have a: "\<forall>s. files ?w ''/a/03.json'' \<noteq> Some (File s)" by (simp add: empty_fs_def)
  have c: "compress stored_gz no_faults ''/a/03.json'' ?w = Some (Inl (IOError ENOENT), ?w)"
    by (simp add: compress_def os_open_read_def empty_fs_def)
  show ?thesis
    using compress_unopened_path[OF a, of stored_gz no_faults "[(no_faults, ''/a/02.json.compress-0123abcd'')]"] a c
    by auto
qed

section \<open>Starting the pipeline: what the scan queues\<close>




lemma not_compress_path_gz: "\<not> is_compress_path (x @ ''.gz'')"
proof -
  have "split_compress_path (x @ ''.gz'') = Inl ValueError"
    by (rule not_compress_path_last) (simp_all add: is_hex_def ascii_lower_def newline_def)
  then show ?thesis by (simp add: is_compress_path_def)
qed


lemma walk_dirs_concat:
  "walk_dirs top0 entries =
     concat (map (\<lambda>(n, t). if is_dir t \<and> \<not> is_link t then walk (os_path_join top0 n) t else [])
       entries)"
  by (induction entries) auto




section \<open>Decimal numbers are read back\<close>

lemma digit_value_digit: "d < 10 \<Longrightarrow> digit_value (''0123456789'' ! d) = d"
proof -
  assume "d < 10"
  then have "d = 0 \<or> d = 1 \<or> d = 2 \<or> d = 3 \<or> d = 4 \<or> d = 5 \<or> d = 6 \<or> d = 7 \<or> d = 8 \<or> d = 9"
    by arith
  then show ?thesis
    by (elim disjE) (simp_all add: digit_value_def)
qed

lemma undigits_snoc: "undigits (s @ [c]) = 10 * undigits s + digit_value c"
  by (simp add: undigits_def)

lemma undigits_digits10: "undigits (digits10 n) = n"
proof (induction n rule: digits10.induct)
  case (1 n)
  show ?case
  proof (cases "n < 10")
    case True
    then show ?thesis
      by (subst digits10.simps) (simp add: undigits_def digit_value_digit)
  next
    case False
    then have "undigits (digits10 n) = 10 * undigits (digits10 (n div 10)) + digit_value (''0123456789'' ! (n mod 10))"
      by (subst digits10.simps) (simp add: undigits_snoc)
    also have "\<dots> = 10 * (n div 10) + n mod 10"
      using 1[OF False] by (simp add: digit_value_digit)
    finally show ?thesis by simp
  qed
qed

lemma undigits_zeros: "undigits (replicate k CHR ''0'' @ s) = undigits s"
proof (induction k)
  case 0
  then show ?case by simp
next
  case (Suc k)
  have "foldl (\<lambda>a c. 10 * a + digit_value c) 0 (CHR ''0'' # t) = foldl (\<lambda>a c. 10 * a + digit_value c) 0 t" for t
    by (simp add: digit_value_def)
  then have "undigits (CHR ''0'' # t) = undigits t" for t by (simp add: undigits_def)
  then show ?case using Suc by simp
qed

lemma format_08d_inj: "format_08d n = format_08d m \<Longrightarrow> n = m"
proof -
  assume "format_08d n = format_08d m"
  then have "undigits (format_08d n) = undigits (format_08d m)" by simp
  then show ?thesis by (simp add: format_08d_def undigits_zeros undigits_digits10)
qed

lemma digits10_length: "n < 10 ^ k \<Longrightarrow> 0 < k \<Longrightarrow> length (digits10 n) \<le> k"
proof (induction n arbitrary: k rule: digits10.induct)
  case (1 n)
  show ?case
  proof (cases "n < 10")
    case True
    then show ?thesis using 1(3) by (subst digits10.simps) simp
  next
    case False
    obtain k' where k: "k = Suc k'" using 1(3) by (cases k) auto
    have "k' \<noteq> 0" using False 1(2) k by (cases k') auto
    moreover have "n div 10 < 10 ^ k'" using 1(2) k by (simp add: less_mult_imp_div_less mult.commute) 
    ultimately have "length (digits10 (n div 10)) \<le> k'" using 1(1)[OF False] by simp
    then show ?thesis using False k by (subst digits10.simps) simp
  qed
qed

lemma format_08d_length: "n < 10 ^ 8 \<Longrightarrow> length (format_08d n) = 8"
  using digits10_length[of n 8] by (simp add: format_08d_def)

section \<open>The loop that finds a free name\<close>

lemma parent_error_not_EEXIST: "parent_error f p \<noteq> Some EEXIST"
  by (auto simp: parent_error_def Let_def split: option.splits node.splits)

lemma unique_loop_exists:
  assumes "files w q \<noteq> None"
  shows "unique_loop d pre suf c q w =
     unique_loop d pre suf (Suc c) (gz_candidate d pre suf (Suc c)) (emit (EvExists q) w)"
  using assms by (subst unique_loop.simps) (simp add: os_open_excl_def gz_candidate_def)

lemma unique_loop_free:
  assumes "files w q = None"
  shows "unique_loop d pre suf c q w =
     (case parent_error (files w) q of
        Some e \<Rightarrow> Some (Inl (OSError e), w)
      | None \<Rightarrow> Some (Inr q, emit (EvCreate q) (w\<lparr>files := (files w)(q \<mapsto> File [])\<rparr>)))"
  using assms parent_error_not_EEXIST[of "files w" q]
  by (subst unique_loop.simps) (auto simp: os_open_excl_def split: option.splits)

text \<open>The result of the loop when \<open>n\<close> is the first count, from \<open>c\<close> on, whose name is free.\<close>

lemma unique_loop_least:
  assumes "\<forall>m. c \<le> m \<and> m < n \<longrightarrow> files w (gz_candidate d pre suf m) \<noteq> None"
    and "files w (gz_candidate d pre suf n) = None"
    and "c \<le> n"
  shows "unique_loop d pre suf c (gz_candidate d pre suf c) w =
     (case parent_error (files w) (gz_candidate d pre suf n) of
        Some e \<Rightarrow>
          Some (Inl (OSError e),
                w\<lparr>trace := trace w @ map (\<lambda>m. EvExists (gz_candidate d pre suf m)) [c..<n]\<rparr>)
      | None \<Rightarrow>
          Some (Inr (gz_candidate d pre suf n),
                w\<lparr>files := (files w)(gz_candidate d pre suf n \<mapsto> File []),
                  trace := trace w @ map (\<lambda>m. EvExists (gz_candidate d pre suf m)) [c..<n] @
                             [EvCreate (gz_candidate d pre suf n)]\<rparr>))"
  using assms
proof (induction "n - c" arbitrary: c w)
  case 0
  then have "c = n" by simp
  then show ?case using "0.prems"(2)
    by (simp add: unique_loop_free emit_def fun_upd_def split: option.splits)
next
  case (Suc k)
  then have lt: "c < n" by simp
  let ?w = "emit (EvExists (gz_candidate d pre suf c)) w"
  have ex: "files w (gz_candidate d pre suf c) \<noteq> None" using Suc.prems(1) lt by simp
  have f: "files ?w = files w" by (simp add: emit_def)
  have IH: "unique_loop d pre suf (Suc c) (gz_candidate d pre suf (Suc c)) ?w =
     (case parent_error (files ?w) (gz_candidate d pre suf n) of
        Some e \<Rightarrow>
          Some (Inl (OSError e),
                ?w\<lparr>trace := trace ?w @ map (\<lambda>m. EvExists (gz_candidate d pre suf m)) [Suc c..<n]\<rparr>)
      | None \<Rightarrow>
          Some (Inr (gz_candidate d pre suf n),
                ?w\<lparr>files := (files ?w)(gz_candidate d pre suf n \<mapsto> File []),
                  trace := trace ?w @ map (\<lambda>m. EvExists (gz_candidate d pre suf m)) [Suc c..<n] @
                             [EvCreate (gz_candidate d pre suf n)]\<rparr>))"
  proof (rule Suc.hyps(1))
    show "k = n - Suc c" using Suc.hyps(2) by simp
    show "\<forall>m. Suc c \<le> m \<and> m < n \<longrightarrow> files ?w (gz_candidate d pre suf m) \<noteq> None"
      using Suc.prems(1) f by simp
    show "files ?w (gz_candidate d pre suf n) = None" using Suc.prems(2) f by simp
    show "Suc c \<le> n" using lt by simp
  qed
  have up: "[c..<n] = c # [Suc c..<n]" using lt by (simp add: upt_conv_Cons)
  show ?case
    unfolding unique_loop_exists[OF ex] IH
    by (simp add: emit_def up split: option.splits)
qed

text \<open>When the loop returns, there was such a first free name.\<close>

lemma unique_loop_returns_least_aux:
  assumes "unique_loop d pre suf c q w = Some r"
  shows "q = gz_candidate d pre suf c \<longrightarrow>
      (\<exists>n\<ge>c. (\<forall>m. c \<le> m \<and> m < n \<longrightarrow> files w (gz_candidate d pre suf m) \<noteq> None) \<and>
           files w (gz_candidate d pre suf n) = None)"
proof (rule unique_loop.raw_induct[where P = "\<lambda>d pre suf c q w r. q = gz_candidate d pre suf c \<longrightarrow>
      (\<exists>n\<ge>c. (\<forall>m. c \<le> m \<and> m < n \<longrightarrow> files w (gz_candidate d pre suf m) \<noteq> None) \<and>
           files w (gz_candidate d pre suf n) = None)", OF _ assms])
  fix loop d pre suf c q w r
  assume IH: "\<And>d pre suf c q w r. loop d pre suf c q w = Some r \<Longrightarrow>
      q = gz_candidate d pre suf c \<longrightarrow>
      (\<exists>n\<ge>c. (\<forall>m. c \<le> m \<and> m < n \<longrightarrow> files w (gz_candidate d pre suf m) \<noteq> None) \<and>
           files w (gz_candidate d pre suf n) = None)"
    and step: "(case os_open_excl q w of
      (Inl e, w') \<Rightarrow>
        if e \<noteq> OSError EEXIST then Some (Inl e, w')
        else loop d pre suf (c + 1)
              (os_path_join d (pre @ ''-'' @ format_08d (c + 1) @ suf)) w'
      | (Inr x, w') \<Rightarrow> Some (Inr q, w')) = Some r"
  show "q = gz_candidate d pre suf c \<longrightarrow>
      (\<exists>n\<ge>c. (\<forall>m. c \<le> m \<and> m < n \<longrightarrow> files w (gz_candidate d pre suf m) \<noteq> None) \<and>
           files w (gz_candidate d pre suf n) = None)"
  proof
    assume q: "q = gz_candidate d pre suf c"
    show "\<exists>n\<ge>c. (\<forall>m. c \<le> m \<and> m < n \<longrightarrow> files w (gz_candidate d pre suf m) \<noteq> None) \<and>
         files w (gz_candidate d pre suf n) = None"
    proof (cases "files w q = None")
      case True
      then show ?thesis using q by (intro exI[of _ c]) auto
    next
      case False
      then have "loop d pre suf (Suc c) (gz_candidate d pre suf (Suc c))
          (emit (EvExists q) w) = Some r"
        using step by (simp add: os_open_excl_def gz_candidate_def)
      from IH[OF this] obtain n where n: "Suc c \<le> n"
        "\<forall>m. Suc c \<le> m \<and> m < n \<longrightarrow> files (emit (EvExists q) w) (gz_candidate d pre suf m) \<noteq> None"
        "files (emit (EvExists q) w) (gz_candidate d pre suf n) = None"
        by auto
      have "\<forall>m. c \<le> m \<and> m < n \<longrightarrow> files w (gz_candidate d pre suf m) \<noteq> None"
      proof (intro allI impI)
        fix m assume "c \<le> m \<and> m < n"
        then consider "m = c" | "Suc c \<le> m \<and> m < n" by linarith
        then show "files w (gz_candidate d pre suf m) \<noteq> None"
        proof cases
          case 1
          then show ?thesis using False q by simp
        next
          case 2
          then show ?thesis using n(2) by (simp add: emit_def)
        qed
      qed
      then show ?thesis using n(1,3) by (intro exI[of _ n]) (simp add: emit_def)
    qed
  qed
qed

lemma unique_loop_returns_least:
  assumes "unique_loop d pre suf c (gz_candidate d pre suf c) w = Some r"
  shows "\<exists>n\<ge>c. (\<forall>m. c \<le> m \<and> m < n \<longrightarrow> files w (gz_candidate d pre suf m) \<noteq> None) \<and>
           files w (gz_candidate d pre suf n) = None"
  using unique_loop_returns_least_aux[OF assms] by simp

lemma startswith_append:
  "startswith c (pre @ x # rest) = (case pre of [] \<Rightarrow> x = c | y # _ \<Rightarrow> y = c)"
  by (cases pre) (simp_all add: startswith_def)

lemma os_path_join_inj:
  assumes "os_path_join d a = os_path_join d b" and "startswith CHR ''/'' a = startswith CHR ''/'' b"
  shows "a = b"
proof (cases "startswith CHR ''/'' a")
  case True
  then have "startswith CHR ''/'' b" using assms(2) by simp
  with True assms(1) show ?thesis by (simp add: os_path_join_def)
next
  case False
  then have "\<not> startswith CHR ''/'' b" using assms(2) by simp
  with False assms(1) show ?thesis
    by (cases "d = [] \<or> endswith CHR ''/'' d") (simp_all add: os_path_join_def)
qed

lemma gz_candidate_inj:
  assumes "0 < n" and "0 < m" and "gz_candidate d pre suf n = gz_candidate d pre suf m"
  shows "n = m"
proof -
  let ?x = "\<lambda>k. pre @ CHR ''-'' # format_08d k @ suf"
  have sw: "startswith CHR ''/'' (?x n) = startswith CHR ''/'' (?x m)"
    by (simp only: startswith_append)
  have cn: "gz_candidate d pre suf n = os_path_join d (?x n)"
    using assms(1) by (simp add: gz_candidate_def)
  have cm: "gz_candidate d pre suf m = os_path_join d (?x m)"
    using assms(2) by (simp add: gz_candidate_def)
  from assms(3) have "os_path_join d (?x n) = os_path_join d (?x m)"
    by (simp only: cn cm)
  from os_path_join_inj[OF this sw] have "format_08d n = format_08d m" by simp
  then show ?thesis by (rule format_08d_inj)
qed

lemma free_candidate_exists:
  assumes "finite (dom f)"
  shows "\<exists>n\<ge>c. f (gz_candidate d pre suf n) = None"
proof (rule ccontr)
  assume "\<not> (\<exists>n\<ge>c. f (gz_candidate d pre suf n) = None)"
  then have sub: "gz_candidate d pre suf ` {Suc c..} \<subseteq> dom f" by (auto simp: dom_def)
  have "inj_on (gz_candidate d pre suf) {Suc c..}"
    by (rule inj_onI) (auto intro: gz_candidate_inj)
  with finite_subset[OF sub assms] have "finite {Suc c..}" by (rule finite_imageD)
  then show False using infinite_Ici by blast
qed

lemma first_free_candidate:
  assumes "finite (dom f)"
  shows "\<exists>n\<ge>c. (\<forall>m. c \<le> m \<and> m < n \<longrightarrow> f (gz_candidate d pre suf m) \<noteq> None) \<and>
           f (gz_candidate d pre suf n) = None"
proof -
  define P where "P n \<longleftrightarrow> c \<le> n \<and> f (gz_candidate d pre suf n) = None" for n
  from free_candidate_exists[OF assms, of c d pre suf] have ex: "\<exists>n. P n"
    by (simp add: P_def)
  have l: "P (LEAST n. P n)" using ex by (rule LeastI_ex)
  have "\<not> P m" if "m < (LEAST n. P n)" for m using that by (rule not_less_Least)
  then have "\<forall>m. c \<le> m \<and> m < (LEAST n. P n) \<longrightarrow> f (gz_candidate d pre suf m) \<noteq> None"
    by (auto simp: P_def)
  then show ?thesis using l unfolding P_def by blast
qed

text \<open>What \<^verbatim>\<open>_unique_writable_file\<close> has done when it yields a path.\<close>

lemma unique_writable_file_Inr:
  assumes "unique_writable_file d pre suf w = Some (Inr out, w')"
  shows "\<exists>n. out = gz_candidate d pre suf n \<and>
           (\<forall>m<n. files w (gz_candidate d pre suf m) \<noteq> None) \<and>
           files w out = None \<and>
           w' = w\<lparr>files := (files w)(out \<mapsto> File []),
                  trace := trace w @ map (\<lambda>m. EvExists (gz_candidate d pre suf m)) [0..<n] @
                             [EvCreate out]\<rparr>"
proof -
  have u: "unique_loop d pre suf 0 (gz_candidate d pre suf 0) w = Some (Inr out, w')"
    using assms by (simp add: unique_writable_file_def gz_candidate_def)
  from unique_loop_returns_least[OF u] obtain n where
    n: "\<forall>m. 0 \<le> m \<and> m < n \<longrightarrow> files w (gz_candidate d pre suf m) \<noteq> None"
       "files w (gz_candidate d pre suf n) = None"
    by blast
  from unique_loop_least[OF n] u show ?thesis
    using n by (intro exI[of _ n]) (auto split: option.splits)
qed

lemma unique_writable_file_Inl:
  assumes "unique_writable_file d pre suf w = Some (Inl e, w')"
  shows "\<exists>n x. e = OSError x \<and> x \<noteq> EEXIST \<and>
           w' = w\<lparr>trace := trace w @ map (\<lambda>m. EvExists (gz_candidate d pre suf m)) [0..<n]\<rparr>"
proof -
  have u: "unique_loop d pre suf 0 (gz_candidate d pre suf 0) w = Some (Inl e, w')"
    using assms by (simp add: unique_writable_file_def gz_candidate_def)
  from unique_loop_returns_least[OF u] obtain n where
    n: "\<forall>m. 0 \<le> m \<and> m < n \<longrightarrow> files w (gz_candidate d pre suf m) \<noteq> None"
       "files w (gz_candidate d pre suf n) = None"
    by blast
  from unique_loop_least[OF n] u show ?thesis
    using parent_error_not_EEXIST[of "files w" "gz_candidate d pre suf n"]
    by (intro exI[of _ n]) (auto split: option.splits)
qed

text \<open>With finitely many files the loop ends.\<close>

lemma unique_writable_file_returns:
  assumes "finite (dom (files w))"
  shows "\<exists>r w'. unique_writable_file d pre suf w = Some (r, w')"
proof -
  from first_free_candidate[OF assms, of 0 d pre suf] obtain n where
    n: "\<forall>m. 0 \<le> m \<and> m < n \<longrightarrow> files w (gz_candidate d pre suf m) \<noteq> None"
       "files w (gz_candidate d pre suf n) = None"
    by blast
  from unique_loop_least[OF n] show ?thesis
    by (cases "parent_error (files w) (gz_candidate d pre suf n)")
       (simp_all add: unique_writable_file_def gz_candidate_def)
qed

section \<open>The compressor: the original goes last\<close>

lemma concat_file_lines: "concat (file_lines s) = s"
  by (induction s) (auto split: list.splits)

lemma fold_emit: "fold (\<lambda>l. emit (ev l)) ls w = w\<lparr>trace := trace w @ map ev ls\<rparr>"
  by (induction ls arbitrary: w) (simp_all add: emit_def)

text \<open>\<^verbatim>\<open>compress\<close> from the moment the new file has been created.\<close>

lemma compress_created:
  assumes "files w p = Some (File s)"
    and "split_compress_path p = Inr (dir, fname)"
    and "unique_writable_file dir (fst (os_path_splitext fname))
           (snd (os_path_splitext fname) @ ''.gz'') (emit (EvOpen p) w) = Some (Inr out, w2)"
  shows "compress gz script p w =
     (let (r, bytes, w3) = gzip_writelines gz script out (file_lines s) w2;
          w4 = emit (EvClose p) (close_written out bytes w3)
      in case r of
           Inl e \<Rightarrow> Some (Inl e, w4)
         | Inr _ \<Rightarrow>
             (case remove_quietly script p w4 of
                (Inl e, w5) \<Rightarrow> Some (Inl e, w5)
              | (Inr _, w5) \<Rightarrow> Some (Inr out, w5)))"
  using assms by (cases "os_path_splitext fname") (simp add: compress_def os_open_read_def)

lemma compress_not_created:
  assumes "files w p = Some (File s)"
    and "split_compress_path p = Inr (dir, fname)"
    and "unique_writable_file dir (fst (os_path_splitext fname))
           (snd (os_path_splitext fname) @ ''.gz'') (emit (EvOpen p) w) = Some (Inl e, w2)"
  shows "compress gz script p w = Some (Inl e, emit (EvClose p) w2)"
  using assms by (cases "os_path_splitext fname") (simp add: compress_def os_open_read_def)

lemma compress_loops:
  assumes "files w p = Some (File s)"
    and "split_compress_path p = Inr (dir, fname)"
    and "unique_writable_file dir (fst (os_path_splitext fname))
           (snd (os_path_splitext fname) @ ''.gz'') (emit (EvOpen p) w) = None"
  shows "compress gz script p w = None"
  using assms by (cases "os_path_splitext fname") (simp add: compress_def os_open_read_def)

lemma gzip_then_close:
  "(let (r, bytes, w3) = gzip_writelines gz script out (file_lines s) w2
    in (r, emit (EvClose p) (close_written out bytes w3))) =
   ((case finish_fault script of
       Some e \<Rightarrow> Inl (IOError e)
     | None \<Rightarrow> (case stream_fault script of Some (_, e) \<Rightarrow> Inl (IOError e) | None \<Rightarrow> Inr ())),
    closed_world gz script p s out w2)"
  by (auto simp: gzip_writelines_def close_written_def closed_world_def written_lines_def
      fold_emit emit_def Let_def split: option.splits)

lemma stream_error_None:
  "stream_error script = None \<longleftrightarrow> stream_fault script = None \<and> finish_fault script = None"
  by (auto simp: stream_error_def split: option.splits)

lemma stream_error_IOError: "stream_error script = Some e \<Longrightarrow> \<exists>x. e = IOError x"
  by (auto simp: stream_error_def split: option.splits)

lemma remove_quietly_file:
  assumes "files w p = Some (File s)"
  shows "remove_quietly script p w =
     (Inr (), if remove_fault script = None
              then w\<lparr>files := (files w)(p := None), trace := trace w @ [EvRemove p]\<rparr>
              else w)"
  using assms by (auto simp: remove_quietly_def os_remove_def emit_def split: option.splits)

lemma compress_created_result:
  assumes f: "files w p = Some (File s)"
    and sp: "split_compress_path p = Inr (dir, fname)"
    and u: "unique_writable_file dir (fst (os_path_splitext fname))
           (snd (os_path_splitext fname) @ ''.gz'') (emit (EvOpen p) w) = Some (Inr out, w2)"
  shows "compress gz script p w =
     (case stream_error script of
        Some e \<Rightarrow> Some (Inl e, closed_world gz script p s out w2)
      | None \<Rightarrow>
          Some (Inr out,
            if remove_fault script = None
            then (closed_world gz script p s out w2)
                   \<lparr>files := (files (closed_world gz script p s out w2))(p := None),
                    trace := trace (closed_world gz script p s out w2) @ [EvRemove p]\<rparr>
            else closed_world gz script p s out w2))"
proof -
  from unique_writable_file_Inr[OF u] have o: "files (emit (EvOpen p) w) out = None"
    and w2: "files w2 = (files (emit (EvOpen p) w))(out \<mapsto> File [])"
    by auto
  from o f have ne: "out \<noteq> p" by (auto simp: emit_def)
  have fp: "files (closed_world gz script p s out w2) p = Some (File s)"
    using ne f w2 by (simp add: closed_world_def emit_def)
  have g: "gzip_writelines gz script out (file_lines s) w2 =
      (case stream_error script of Some e \<Rightarrow> Inl e | None \<Rightarrow> Inr (),
       gz (concat (written_lines script s)) (finish_fault script = None),
       snd (snd (gzip_writelines gz script out (file_lines s) w2)))"
    by (auto simp: gzip_writelines_def stream_error_def written_lines_def Let_def
        split: option.splits)
  have c: "emit (EvClose p) (close_written out (gz (concat (written_lines script s)) (finish_fault script = None))
        (snd (snd (gzip_writelines gz script out (file_lines s) w2)))) =
      closed_world gz script p s out w2"
    by (auto simp: gzip_writelines_def close_written_def closed_world_def written_lines_def
        fold_emit emit_def Let_def split: option.splits)
  show ?thesis
    unfolding compress_created[OF f sp u]
    by (subst g) (simp add: c remove_quietly_file[OF fp] split: option.splits)
qed

lemma closed_world_files:
  "files (closed_world gz script p s out w2) =
     (files w2)(out \<mapsto> File (gz (concat (written_lines script s)) (finish_fault script = None)))"
  by (simp add: closed_world_def)

lemma closed_world_trace:
  "trace (closed_world gz script p s out w2) =
     trace w2 @ map (EvWrite out) (written_lines script s) @
       (if finish_fault script = None then [EvFinish out] else []) @ [EvClose out, EvClose p]"
  by (simp add: closed_world_def)

lemma compress_success:
  assumes c: "compress gz script p w = Some (Inr out, w')" and f: "files w p = Some (File s)"
  shows "stream_fault script = None \<and> finish_fault script = None \<and>
         files w out = None \<and> files w' out = Some (File (gz s True)) \<and>
         (\<exists>before. trace w' = trace w @ before @ [EvFinish out, EvClose out, EvClose p] @
              (if remove_fault script = None then [EvRemove p] else []) \<and>
            EvRemove p \<notin> set before) \<and>
         files w' p = (if remove_fault script = None then None else Some (File s))"
proof (cases "split_compress_path p")
  case (Inl e)
  then show ?thesis using c f by (simp add: compress_def os_open_read_def)
next
  case (Inr df)
  obtain dir fname where sp: "split_compress_path p = Inr (dir, fname)"
    using Inr by (cases df) auto
  let ?u = "unique_writable_file dir (fst (os_path_splitext fname))
           (snd (os_path_splitext fname) @ ''.gz'') (emit (EvOpen p) w)"
  show ?thesis
  proof (cases ?u)
    case None
    from compress_loops[OF f sp None] c show ?thesis by simp
  next
    case (Some rw)
    obtain r2 w2 where rw: "rw = (r2, w2)" by (cases rw)
    show ?thesis
    proof (cases r2)
      case (Inl e)
      from compress_not_created[OF f sp Some[unfolded rw Inl]] c show ?thesis by simp
    next
      case (Inr out2)
      note u = Some[unfolded rw Inr]
      from unique_writable_file_Inr[OF u] obtain n where
        o: "files (emit (EvOpen p) w) out2 = None"
        and w2: "w2 = (emit (EvOpen p) w)\<lparr>files := (files (emit (EvOpen p) w))(out2 \<mapsto> File []),
                  trace := trace (emit (EvOpen p) w) @
                    map (\<lambda>m. EvExists (gz_candidate dir (fst (os_path_splitext fname))
                      (snd (os_path_splitext fname) @ ''.gz'') m)) [0..<n] @ [EvCreate out2]\<rparr>"
        by blast
      from o f have ne: "out2 \<noteq> p" by (auto simp: emit_def)
      from compress_created_result[OF f sp u, of gz script] c
      have se: "stream_error script = None" and out: "out = out2"
        and w': "w' = (if remove_fault script = None
            then (closed_world gz script p s out2 w2)
                   \<lparr>files := (files (closed_world gz script p s out2 w2))(p := None),
                    trace := trace (closed_world gz script p s out2 w2) @ [EvRemove p]\<rparr>
            else closed_world gz script p s out2 w2)"
        by (auto split: option.splits)
      from se have nf: "stream_fault script = None" "finish_fault script = None"
        by (simp_all add: stream_error_None)
      have wl: "concat (written_lines script s) = s"
        using nf by (simp add: written_lines_def concat_file_lines)
      have fo: "files w' out = Some (File (gz s True))"
        using ne nf wl by (simp add: w' out closed_world_files)
      have fp: "files w' p = (if remove_fault script = None then None else Some (File s))"
        using ne f by (simp add: w' closed_world_files w2 emit_def)
      let ?before = "EvOpen p #
           map (\<lambda>m. EvExists (gz_candidate dir (fst (os_path_splitext fname))
                      (snd (os_path_splitext fname) @ ''.gz'') m)) [0..<n] @
           [EvCreate out2] @ map (EvWrite out2) (written_lines script s)"
      have tr: "trace w' = trace w @ ?before @ [EvFinish out, EvClose out, EvClose p] @
              (if remove_fault script = None then [EvRemove p] else [])"
        using nf by (simp add: w' out closed_world_trace w2 emit_def)
      have nb: "EvRemove p \<notin> set ?before" by auto
      show ?thesis
        using nf o fo fp tr nb unfolding out
        by (intro conjI exI[of _ ?before]) (simp_all add: emit_def)
    qed
  qed
qed

lemma compress_failure:
  assumes c: "compress gz script p w = Some (Inl e, w')" and f: "files w p = Some (File s)"
  shows "files w' p = Some (File s) \<and>
         (\<exists>after. trace w' = trace w @ after \<and> EvRemove p \<notin> set after)"
proof (cases "split_compress_path p")
  case (Inl e')
  then have "w' = emit (EvClose p) (emit (EvOpen p) w)"
    using c f by (simp add: compress_def os_open_read_def)
  then show ?thesis using f
    by (intro conjI exI[of _ "[EvOpen p, EvClose p]"]) (simp_all add: emit_def)
next
  case (Inr df)
  obtain dir fname where sp: "split_compress_path p = Inr (dir, fname)"
    using Inr by (cases df) auto
  let ?u = "unique_writable_file dir (fst (os_path_splitext fname))
           (snd (os_path_splitext fname) @ ''.gz'') (emit (EvOpen p) w)"
  show ?thesis
  proof (cases ?u)
    case None
    from compress_loops[OF f sp None] c show ?thesis by simp
  next
    case (Some rw)
    obtain r2 w2 where rw: "rw = (r2, w2)" by (cases rw)
    show ?thesis
    proof (cases r2)
      case (Inl e2)
      note u = Some[unfolded rw Inl]
      from unique_writable_file_Inl[OF u] obtain n where
        w2: "w2 = (emit (EvOpen p) w)\<lparr>trace := trace (emit (EvOpen p) w) @
           map (\<lambda>m. EvExists (gz_candidate dir (fst (os_path_splitext fname))
                      (snd (os_path_splitext fname) @ ''.gz'') m)) [0..<n]\<rparr>"
        by blast
      from compress_not_created[OF f sp u] c have w': "w' = emit (EvClose p) w2" by simp
      let ?after = "EvOpen p #
           map (\<lambda>m. EvExists (gz_candidate dir (fst (os_path_splitext fname))
                      (snd (os_path_splitext fname) @ ''.gz'') m)) [0..<n] @ [EvClose p]"
      have "trace w' = trace w @ ?after" by (simp add: w' w2 emit_def)
      moreover have "EvRemove p \<notin> set ?after" by auto
      moreover have "files w' p = Some (File s)" using f by (simp add: w' w2 emit_def)
      ultimately show ?thesis by blast
    next
      case (Inr out2)
      note u = Some[unfolded rw Inr]
      from unique_writable_file_Inr[OF u] obtain n where
        o: "files (emit (EvOpen p) w) out2 = None"
        and w2: "w2 = (emit (EvOpen p) w)\<lparr>files := (files (emit (EvOpen p) w))(out2 \<mapsto> File []),
                  trace := trace (emit (EvOpen p) w) @
                    map (\<lambda>m. EvExists (gz_candidate dir (fst (os_path_splitext fname))
                      (snd (os_path_splitext fname) @ ''.gz'') m)) [0..<n] @ [EvCreate out2]\<rparr>"
        by blast
      from o f have ne: "out2 \<noteq> p" by (auto simp: emit_def)
      from compress_created_result[OF f sp u, of gz script] c
      have w': "w' = closed_world gz script p s out2 w2"
        by (auto split: option.splits)
      let ?after = "EvOpen p #
           map (\<lambda>m. EvExists (gz_candidate dir (fst (os_path_splitext fname))
                      (snd (os_path_splitext fname) @ ''.gz'') m)) [0..<n] @
           [EvCreate out2] @ map (EvWrite out2) (written_lines script s) @
           (if finish_fault script = None then [EvFinish out2] else []) @ [EvClose out2, EvClose p]"
      have "trace w' = trace w @ ?after" by (simp add: w' closed_world_trace w2 emit_def)
      moreover have "EvRemove p \<notin> set ?after" by auto
      moreover have "files w' p = Some (File s)"
        using f ne by (simp add: w' closed_world_files w2 emit_def)
      ultimately show ?thesis by blast
    qed
  qed
qed

lemma compress_partway:
  assumes f: "files w p = Some (File s)"
    and sp: "split_compress_path p = Inr (dir, fname)"
    and u: "unique_writable_file dir (fst (os_path_splitext fname))
           (snd (os_path_splitext fname) @ ''.gz'') (emit (EvOpen p) w) = Some (Inr out, w2)"
    and fault: "stream_fault script \<noteq> None \<or> finish_fault script \<noteq> None"
  shows "\<exists>x w'. compress gz script p w = Some (Inl (IOError x), w') \<and>
           files w out = None \<and> files w' p = Some (File s) \<and>
           files w' out = Some (File (gz (concat (written_lines script s)) (finish_fault script = None)))"
proof -
  from fault obtain e where se: "stream_error script = Some e"
    using stream_error_None[of script] by (cases "stream_error script") auto
  from stream_error_IOError[OF se] obtain x where x: "e = IOError x" by blast
  from unique_writable_file_Inr[OF u] have o: "files (emit (EvOpen p) w) out = None"
    and w2: "files w2 = (files (emit (EvOpen p) w))(out \<mapsto> File [])"
    by auto
  from o f have ne: "out \<noteq> p" by (auto simp: emit_def)
  have "compress gz script p w = Some (Inl (IOError x), closed_world gz script p s out w2)"
    using compress_created_result[OF f sp u, of gz script] se x by simp
  moreover have "files (closed_world gz script p s out w2) p = Some (File s)"
    using f ne w2 by (simp add: closed_world_files emit_def)
  moreover have "files w out = None" using o by (simp add: emit_def)
  ultimately show ?thesis by (simp add: closed_world_files)
qed

text \<open>
  Claim C2: take a call of \<^verbatim>\<open>compress\<close> on an existing file that returns or raises. If
  it returns a path, nothing went wrong with the stream, the path named no file before,
  the new file holds the finished gzip stream of all the bytes of the original, and the
  removal of the original is the last thing done: it comes after the gzip stream was
  finished and both files were closed, and nothing before it removes the original (when
  the system refuses the removal, the original stays and the path is still returned).
  If it raises, the original is still there with its bytes, and nothing has removed it.
  If the new file was created and the stream failed partway (moving a line into it, or
  finishing it), it raises an \<open>IOError\<close>, and the new file is left in place with what was
  written of the stream.
\<close>

theorem compress_removes_last:
  assumes "compress gz script p w = Some (r, w')" and "files w p = Some (File s)"
  shows "(\<forall>out. r = Inr out \<longrightarrow>
            stream_fault script = None \<and> finish_fault script = None \<and>
            files w out = None \<and> files w' out = Some (File (gz s True)) \<and>
            (\<exists>before. trace w' = trace w @ before @ [EvFinish out, EvClose out, EvClose p] @
                 (if remove_fault script = None then [EvRemove p] else []) \<and>
               EvRemove p \<notin> set before) \<and>
            files w' p = (if remove_fault script = None then None else Some (File s))) \<and>
         (\<forall>e. r = Inl e \<longrightarrow>
            files w' p = Some (File s) \<and>
            (\<exists>after. trace w' = trace w @ after \<and> EvRemove p \<notin> set after)) \<and>
         (\<forall>dir fname out w2.
            split_compress_path p = Inr (dir, fname) \<and>
            unique_writable_file dir (fst (os_path_splitext fname))
              (snd (os_path_splitext fname) @ ''.gz'') (emit (EvOpen p) w) = Some (Inr out, w2) \<and>
            (stream_fault script \<noteq> None \<or> finish_fault script \<noteq> None) \<longrightarrow>
            (\<exists>x. r = Inl (IOError x)) \<and> files w out = None \<and>
            files w' p = Some (File s) \<and>
            files w' out =
              Some (File (gz (concat (written_lines script s)) (finish_fault script = None))))"
proof -
  have A: "stream_fault script = None \<and> finish_fault script = None \<and>
        files w out = None \<and> files w' out = Some (File (gz s True)) \<and>
        (\<exists>before. trace w' = trace w @ before @ [EvFinish out, EvClose out, EvClose p] @
             (if remove_fault script = None then [EvRemove p] else []) \<and>
           EvRemove p \<notin> set before) \<and>
        files w' p = (if remove_fault script = None then None else Some (File s))"
    if r: "r = Inr out" for out
    using compress_success[OF assms(1)[unfolded r] assms(2)] .
  have B: "files w' p = Some (File s) \<and>
        (\<exists>after. trace w' = trace w @ after \<and> EvRemove p \<notin> set after)"
    if r: "r = Inl e" for e
    using compress_failure[OF assms(1)[unfolded r] assms(2)] .
  have C: "(\<exists>x. r = Inl (IOError x)) \<and> files w out = None \<and>
        files w' p = Some (File s) \<and>
        files w' out =
          Some (File (gz (concat (written_lines script s)) (finish_fault script = None)))"
    if h: "split_compress_path p = Inr (dir, fname) \<and>
      unique_writable_file dir (fst (os_path_splitext fname))
        (snd (os_path_splitext fname) @ ''.gz'') (emit (EvOpen p) w) = Some (Inr out, w2) \<and>
      (stream_fault script \<noteq> None \<or> finish_fault script \<noteq> None)" for dir fname out w2
    using compress_partway[OF assms(2), of dir fname out w2 script gz] h assms(1) by auto
  show ?thesis
    apply (intro conjI)
    subgoal using A by blast
    subgoal using B by blast
    subgoal using C by blast
    done
qed

lemma day_split:
  "split_compress_path ''/a/01.json.compress-0123abcd'' = Inr (''/a'', ''01.json'')"
  by (simp add: split_compress_path_def os_path_split_def rfind1_def rstrip_def
      re_match_compress_def tag_end_def is_hex_def ascii_lower_def newline_def)

lemma day_splitext: "os_path_splitext ''01.json'' = (''01'', ''.json'')"
  by (simp add: os_path_splitext_def rfind1_def)

lemma day_unique:
  "\<exists>w2. unique_writable_file ''/a'' ''01'' ''.json.gz''
          (emit (EvOpen ''/a/01.json.compress-0123abcd'') day_world) =
        Some (Inr ''/a/01-00000001.json.gz'', w2)"
proof -
  have c0: "gz_candidate ''/a'' ''01'' ''.json.gz'' 0 = ''/a/01.json.gz''"
    by (simp add: gz_candidate_def os_path_join_def startswith_def endswith_def)
  have c1: "gz_candidate ''/a'' ''01'' ''.json.gz'' (Suc 0) = ''/a/01-00000001.json.gz''"
    by (simp add: gz_candidate_def os_path_join_def startswith_def endswith_def format_08d_def
        digits10.simps numeral_eq_Suc)
  let ?w = "emit (EvOpen ''/a/01.json.compress-0123abcd'') day_world"
  have taken: "\<forall>m. 0 \<le> m \<and> m < Suc 0 \<longrightarrow> files ?w (gz_candidate ''/a'' ''01'' ''.json.gz'' m) \<noteq> None"
    by (simp add: c0 emit_def day_world_def)
  have free: "files ?w (gz_candidate ''/a'' ''01'' ''.json.gz'' (Suc 0)) = None"
    by (simp add: c1 emit_def day_world_def empty_fs_def)
  have par: "parent_error (files ?w) (gz_candidate ''/a'' ''01'' ''.json.gz'' (Suc 0)) = None"
    by (simp add: c1 parent_error_def os_path_split_def rfind1_def rstrip_def emit_def day_world_def)
  have j: "os_path_join ''/a'' (''01'' @ ''.json.gz'') = ''/a/01.json.gz''"
    by (simp add: os_path_join_def startswith_def endswith_def)
  from unique_loop_least[OF taken free]
  have "\<exists>w2. unique_loop ''/a'' ''01'' ''.json.gz'' 0 (gz_candidate ''/a'' ''01'' ''.json.gz'' 0) ?w =
      Some (Inr (gz_candidate ''/a'' ''01'' ''.json.gz'' (Suc 0)), w2)"
    by (simp only: par option.case) blast
  then show ?thesis
    by (simp only: unique_writable_file_def j c0 c1)
qed

theorem compress_removes_last_witness:
  "files day_world ''/a/01.json.compress-0123abcd'' = Some (File ''x\<newline>y\<newline>z'') \<and>
   (\<exists>w'. compress stored_gz disk_full ''/a/01.json.compress-0123abcd'' day_world =
             Some (Inl (IOError ENOSPC), w') \<and>
          files w' ''/a/01.json.compress-0123abcd'' = Some (File ''x\<newline>y\<newline>z'') \<and>
          files w' ''/a/01-00000001.json.gz'' = Some (File ''GZ[x\<newline>]'') \<and>
          EvRemove ''/a/01.json.compress-0123abcd'' \<notin> set (trace w'))"
proof -
  let ?p = "''/a/01.json.compress-0123abcd''"
  have f: "files day_world ?p = Some (File ''x\<newline>y\<newline>z'')" by (simp add: day_world_def)
  from day_unique obtain w2 where
    u: "unique_writable_file ''/a'' (fst (os_path_splitext ''01.json''))
          (snd (os_path_splitext ''01.json'') @ ''.gz'') (emit (EvOpen ?p) day_world) =
        Some (Inr ''/a/01-00000001.json.gz'', w2)"
    by (auto simp: day_splitext)
  have fault: "stream_fault disk_full \<noteq> None \<or> finish_fault disk_full \<noteq> None"
    by (simp add: disk_full_def)
  from compress_created_result[OF f day_split u, of stored_gz disk_full]
  obtain w' where c: "compress stored_gz disk_full ?p day_world = Some (Inl (IOError ENOSPC), w')"
    by (simp add: stream_error_def disk_full_def)
  have wl: "concat (written_lines disk_full ''x\<newline>y\<newline>z'') = ''x\<newline>''"
    by (simp add: written_lines_def disk_full_def newline_def)
  have t: "trace day_world = []" by (simp add: day_world_def)
  from compress_removes_last[OF c f] day_split u fault
  have "files w' ?p = Some (File ''x\<newline>y\<newline>z'') \<and>
        (\<exists>after. trace w' = trace day_world @ after \<and> EvRemove ?p \<notin> set after) \<and>
        files w' ''/a/01-00000001.json.gz'' =
          Some (File (stored_gz (concat (written_lines disk_full ''x\<newline>y\<newline>z''))
            (finish_fault disk_full = None)))"
    by blast
  moreover have "finish_fault disk_full = None" by (simp add: disk_full_def)
  ultimately show ?thesis using f c by (auto simp: wl t stored_gz_def)
qed

section \<open>The collector: a rotation with a file open\<close>

lemma append_bytes_nothing: "append_bytes p [] w = w"
proof (cases "files w p")
  case None
  then show ?thesis by (simp add: append_bytes_def)
next
  case (Some n)
  show ?thesis
  proof (cases n)
    case (File s)
    with Some have "(files w)(p \<mapsto> File s) = files w" by (simp add: fun_upd_idem)
    with Some File show ?thesis by (simp add: append_bytes_def)
  next
    case Dir
    with Some show ?thesis by (simp add: append_bytes_def)
  qed
qed

lemma append_bytes_trace: "trace (append_bytes p b w) = trace w"
  by (simp add: append_bytes_def split: option.splits node.splits)

lemma append_bytes_queue: "queue (append_bytes p b w) = queue w"
  by (simp add: append_bytes_def split: option.splits node.splits)

lemma append_bytes_file:
  "files w p = Some (File s) \<Longrightarrow> files (append_bytes p b w) = (files w)(p \<mapsto> File (s @ b))"
  by (simp add: append_bytes_def)

text \<open>The round up to the call of \<^verbatim>\<open>_rename\<close>: the file has been flushed and closed.\<close>

lemma collect_rotate_open:
  assumes "closed h = False"
  shows "collect_round cwd archive_dir room_name draws RotateEvent (Some h) w =
     (case rename draws (name h)
             (emit (EvClose (name h)) (emit (EvFlush (name h))
                (append_bytes (name h) (pending h) w))) of
        None \<Rightarrow> None
      | Some (Inl e, w3) \<Rightarrow> Some (Some e, Some (h\<lparr>pending := [], closed := True\<rparr>), w3)
      | Some (Inr new_path, w3) \<Rightarrow> Some (None, None, queue_put 0 new_path w3))"
proof -
  have fl: "file_flush h w =
      (Inr (h\<lparr>pending := []\<rparr>), emit (EvFlush (name h)) (append_bytes (name h) (pending h) w))"
    using assms by (simp add: file_flush_def)
  have cl: "file_close (h\<lparr>pending := []\<rparr>) w1 =
      (h\<lparr>pending := [], closed := True\<rparr>, emit (EvClose (name h)) w1)" for w1
    using assms by (simp add: file_close_def append_bytes_nothing)
  show ?thesis
    by (simp add: collect_round_def fl cl)
qed

lemma rename_result:
  assumes "rename draws p w = Some (r, w')"
  shows "\<exists>new_path. create_compress_path (files w) p draws = Some new_path \<and>
           os_rename p new_path w = (case r of Inl e \<Rightarrow> Inl e | Inr _ \<Rightarrow> Inr (), w') \<and>
           (\<forall>q. r = Inr q \<longrightarrow> q = new_path)"
  using assms
  by (cases "create_compress_path (files w) p draws")
     (auto simp: rename_def split: prod.splits sum.splits)

lemma os_rename_Inr:
  assumes "os_rename src dst w = (Inr (), w')"
  shows "\<exists>s. files w src = Some (File s) \<and>
           w' = w\<lparr>files := ((files w)(src := None))(dst \<mapsto> File s),
                  trace := trace w @ [EvRename src dst]\<rparr>"
  using assms
  by (auto simp: os_rename_def emit_def split: option.splits node.splits if_splits)

lemma os_rename_Inl:
  assumes "os_rename src dst w = (Inl e, w')"
  shows "w' = w"
  using assms
  by (auto simp: os_rename_def emit_def split: option.splits node.splits if_splits)

lemma parent_error_candidate:
  "parent_error f (compress_candidate p r) = parent_error f p"
  by (simp add: parent_error_def candidate_split)

lemma os_rename_succeeds:
  assumes "files w src = Some (File s)" and "files w dst \<noteq> Some Dir"
    and "parent_error (files w) dst = None"
  shows "os_rename src dst w =
     (Inr (), w\<lparr>files := ((files w)(src := None))(dst \<mapsto> File s),
                trace := trace w @ [EvRename src dst]\<rparr>)"
  using assms by (simp add: os_rename_def emit_def)

text \<open>
  What a round that has returned has done: the flush and the close come first, then
  the rename and the queue, or the exception of the rename.
\<close>

lemma collect_rotation_outcome:
  assumes "closed h = False"
    and "collect_round cwd archive_dir room_name draws RotateEvent (Some h) w =
           Some (err, archive', w')"
  shows "(\<exists>rest. trace w' = trace w @ [EvFlush (name h), EvClose (name h)] @ rest \<and>
            (err = None \<longrightarrow>
               archive' = None \<and>
               (\<exists>new_path. rest = [EvRename (name h) new_path, EvQueue 0 new_path] \<and>
                  queue w' = queue w @ [(0, new_path)] \<and>
                  (\<exists>r\<in>set draws. new_path = compress_candidate (name h) r) \<and>
                  files w' (name h) = None \<and>
                  (\<forall>s. files w (name h) = Some (File s) \<longrightarrow>
                     files w' new_path = Some (File (s @ pending h))))) \<and>
            (err \<noteq> None \<longrightarrow>
               rest = [] \<and> queue w' = queue w \<and>
               archive' = Some (h\<lparr>pending := [], closed := True\<rparr>))) \<and>
         ((\<exists>s. files w (name h) = Some (File s)) \<and>
          files w (fst (os_path_split (name h))) = Some Dir \<and>
          (\<forall>r\<in>set draws. files w (compress_candidate (name h) r) \<noteq> Some Dir) \<longrightarrow>
          err = None)"
proof -
  let ?n = "name h"
  let ?w1 = "append_bytes ?n (pending h) w"
  let ?w2 = "emit (EvClose ?n) (emit (EvFlush ?n) ?w1)"
  have t2: "trace ?w2 = trace w @ [EvFlush ?n, EvClose ?n]"
    by (simp add: emit_def append_bytes_trace)
  have q2: "queue ?w2 = queue w" by (simp add: emit_def append_bytes_queue)
  have f2: "files ?w2 = files ?w1" by (simp add: emit_def)
  from assms(2) obtain r w3 where rn: "rename draws ?n ?w2 = Some (r, w3)"
    unfolding collect_rotate_open[OF assms(1)]
    by (cases "rename draws ?n ?w2") auto
  from rename_result[OF rn] obtain new_path where
    cr: "create_compress_path (files ?w2) ?n draws = Some new_path"
    and mv: "os_rename ?n new_path ?w2 = (case r of Inl e \<Rightarrow> Inl e | Inr _ \<Rightarrow> Inr (), w3)"
    and same: "\<forall>q. r = Inr q \<longrightarrow> q = new_path"
    by blast
  from create_Some[OF cr] obtain r0 where r0: "r0 \<in> set draws"
    "new_path = compress_candidate ?n r0" "\<not> isfile (files ?w2) new_path"
    by blast
  have first: "\<exists>rest. trace w' = trace w @ [EvFlush ?n, EvClose ?n] @ rest \<and>
            (err = None \<longrightarrow>
               archive' = None \<and>
               (\<exists>new_path. rest = [EvRename ?n new_path, EvQueue 0 new_path] \<and>
                  queue w' = queue w @ [(0, new_path)] \<and>
                  (\<exists>r\<in>set draws. new_path = compress_candidate ?n r) \<and>
                  files w' ?n = None \<and>
                  (\<forall>s. files w ?n = Some (File s) \<longrightarrow>
                     files w' new_path = Some (File (s @ pending h))))) \<and>
            (err \<noteq> None \<longrightarrow>
               rest = [] \<and> queue w' = queue w \<and>
               archive' = Some (h\<lparr>pending := [], closed := True\<rparr>))"
  proof (cases r)
    case (Inl e)
    with mv have "w3 = ?w2" using os_rename_Inl[of ?n new_path ?w2 e w3] by simp
    with assms(2) rn Inl have "err = Some e" "w' = ?w2"
      "archive' = Some (h\<lparr>pending := [], closed := True\<rparr>)"
      unfolding collect_rotate_open[OF assms(1)] by simp_all
    then show ?thesis using t2 q2 by (intro exI[of _ "[]"]) simp
  next
    case (Inr q)
    with same have q: "q = new_path" by simp
    from mv Inr have "os_rename ?n new_path ?w2 = (Inr (), w3)" by simp
    from os_rename_Inr[OF this] obtain s2 where
      s2: "files ?w2 ?n = Some (File s2)"
      and w3: "w3 = ?w2\<lparr>files := ((files ?w2)(?n := None))(new_path \<mapsto> File s2),
                  trace := trace ?w2 @ [EvRename ?n new_path]\<rparr>"
      by blast
    from s2 r0(3) have ne: "new_path \<noteq> ?n" by (auto simp: isfile_def)
    from assms(2) rn Inr q have res: "err = None" "archive' = None" "w' = queue_put 0 new_path w3"
      unfolding collect_rotate_open[OF assms(1)] by simp_all
    have tr: "trace w' = trace w @ [EvFlush ?n, EvClose ?n] @ [EvRename ?n new_path, EvQueue 0 new_path]"
      by (simp add: res(3) queue_put_def emit_def w3 append_bytes_trace)
    have qu: "queue w' = queue w @ [(0, new_path)]"
      by (simp add: res(3) queue_put_def emit_def w3 append_bytes_queue)
    have gone: "files w' ?n = None"
      using ne by (simp add: res(3) queue_put_def emit_def w3)
    have bytes: "files w' new_path = Some (File (s @ pending h))" if "files w ?n = Some (File s)" for s
    proof -
      from that have "files ?w2 ?n = Some (File (s @ pending h))"
        by (simp add: f2 append_bytes_file)
      with s2 have "s2 = s @ pending h" by simp
      then show ?thesis by (simp add: res(3) queue_put_def emit_def w3)
    qed
    show ?thesis
      apply (rule exI[of _ "[EvRename ?n new_path, EvQueue 0 new_path]"])
      apply (intro conjI impI)
      subgoal by (rule tr)
      subgoal by (rule res(2))
      subgoal using qu r0(1,2) gone bytes by (intro exI[of _ new_path]) blast
      subgoal using res(1) by simp
      subgoal using res(1) by simp
      subgoal using res(1) by simp
      done
  qed
  have second: "err = None"
    if h: "(\<exists>s. files w ?n = Some (File s)) \<and>
          files w (fst (os_path_split ?n)) = Some Dir \<and>
          (\<forall>r\<in>set draws. files w (compress_candidate ?n r) \<noteq> Some Dir)"
  proof -
    from h obtain s where s: "files w ?n = Some (File s)" by blast
    from h have d: "files w (fst (os_path_split ?n)) = Some Dir" by blast
    from s d have dn: "fst (os_path_split ?n) \<noteq> ?n" by auto
    have fw2: "files ?w2 = (files w)(?n \<mapsto> File (s @ pending h))"
      by (simp add: f2 append_bytes_file[OF s])
    have src: "files ?w2 ?n = Some (File (s @ pending h))" by (simp add: fw2)
    have dst: "files ?w2 new_path \<noteq> Some Dir"
      using h r0(1,2) by (simp add: fw2)
    have "parent_error (files ?w2) new_path = parent_error (files ?w2) ?n"
      unfolding r0(2) by (rule parent_error_candidate)
    also have "\<dots> = None"
      using d dn by (simp add: parent_error_def fw2 Let_def)
    finally have par: "parent_error (files ?w2) new_path = None" .
    from os_rename_succeeds[OF src dst par] mv have "\<exists>q. r = Inr q"
      by (cases r) auto
    then obtain q where "r = Inr q" by blast
    with assms(2) rn show ?thesis
      unfolding collect_rotate_open[OF assms(1)] by simp
  qed
  show ?thesis
    apply (rule conjI)
    subgoal by (rule first)
    subgoal using second by blast
    done
qed

lemma open_handle_split:
  "os_path_split ''/arch/room@c.d/2026/11/03.json'' = (''/arch/room@c.d/2026/11'', ''03.json'')"
  by (simp add: os_path_split_def rfind1_def rstrip_def)

lemma open_handle_candidate:
  "compress_candidate ''/arch/room@c.d/2026/11/03.json'' 0x0123abcd =
     ''/arch/room@c.d/2026/11/03.json.compress-0123abcd''"
  by (simp add: compress_candidate_def open_handle_split os_path_join_def startswith_def
      endswith_def format_08x_def hexdigit_def)

section \<open>No compressed file is written over\<close>

lemma join_suffix: "\<exists>x. os_path_join d b = x @ b"
proof (cases "startswith CHR ''/'' b")
  case True
  then have "os_path_join d b = [] @ b" by (simp add: os_path_join_def)
  then show ?thesis by blast
next
  case False
  show ?thesis
  proof (cases "d = [] \<or> endswith CHR ''/'' d")
    case True
    with False have "os_path_join d b = d @ b" by (simp add: os_path_join_def)
    then show ?thesis by blast
  next
    case False
    with \<open>\<not> startswith CHR ''/'' b\<close> have "os_path_join d b = (d @ ''/'') @ b"
      by (simp add: os_path_join_def)
    then show ?thesis by blast
  qed
qed

lemma gz_candidate_not_pattern: "\<not> is_compress_path (gz_candidate d pre (suf @ ''.gz'') n)"
proof -
  obtain y where y: "(if n = 0 then pre @ suf @ ''.gz'' else pre @ ''-'' @ format_08d n @ suf @ ''.gz'')
      = y @ ''.gz''"
    by (cases "n = 0") auto
  from join_suffix[of d "y @ ''.gz''"] obtain x where "os_path_join d (y @ ''.gz'') = x @ y @ ''.gz''"
    by blast
  then have "gz_candidate d pre (suf @ ''.gz'') n = (x @ y) @ ''.gz''"
    using y by (simp add: gz_candidate_def)
  then show ?thesis using not_compress_path_gz[of "x @ y"] by simp
qed

text \<open>What one call of \<^verbatim>\<open>compress\<close> does to the files.\<close>

lemma compress_files:
  assumes c: "compress gz script p w = Some (r, w')"
  shows "(files w' = files w \<and> (\<exists>e. r = Inl e)) \<or>
         (\<exists>out bytes. files w out = None \<and> \<not> is_compress_path out \<and> out \<noteq> p \<and>
            ((files w' = (files w)(out \<mapsto> File bytes) \<and> (r = Inr out \<or> (\<exists>e. r = Inl e))) \<or>
             (files w' = ((files w)(out \<mapsto> File bytes))(p := None) \<and> r = Inr out \<and>
              is_compress_path p)))"
proof (cases "\<exists>s. files w p = Some (File s)")
  case False
  then have "\<forall>s. files w p \<noteq> Some (File s)" by simp
  from compress_unopened[OF this, of gz script] obtain e where
    "compress gz script p w = Some (Inl (IOError e), w)" by blast
  with c have "r = Inl (IOError e)" "w' = w" by simp_all
  then show ?thesis by simp
next
  case True
  then obtain s where f: "files w p = Some (File s)" by blast
  show ?thesis
  proof (cases "split_compress_path p")
    case (Inl e)
    then have "r = Inl e" "w' = emit (EvClose p) (emit (EvOpen p) w)"
      using c f by (simp_all add: compress_def os_open_read_def)
    then show ?thesis by (simp add: emit_def)
  next
    case (Inr df)
    obtain dir fname where sp: "split_compress_path p = Inr (dir, fname)"
      using Inr by (cases df) auto
    then have pat: "is_compress_path p" by (simp add: is_compress_path_def)
    let ?u = "unique_writable_file dir (fst (os_path_splitext fname))
             (snd (os_path_splitext fname) @ ''.gz'') (emit (EvOpen p) w)"
    show ?thesis
    proof (cases ?u)
      case None
      from compress_loops[OF f sp None] c show ?thesis by simp
    next
      case (Some rw)
      obtain r2 w2 where rw: "rw = (r2, w2)" by (cases rw)
      show ?thesis
      proof (cases r2)
        case (Inl e2)
        note u = Some[unfolded rw Inl]
        from unique_writable_file_Inl[OF u] obtain n x where
          "w2 = (emit (EvOpen p) w)\<lparr>trace := trace (emit (EvOpen p) w) @
             map (\<lambda>m. EvExists (gz_candidate dir (fst (os_path_splitext fname))
               (snd (os_path_splitext fname) @ ''.gz'') m)) [0..<n]\<rparr>"
          by blast
        then have "files w2 = files w" by (simp add: emit_def)
        moreover from compress_not_created[OF f sp u] c have "r = Inl e2" "w' = emit (EvClose p) w2"
          by simp_all
        ultimately show ?thesis by (simp add: emit_def)
      next
        case (Inr out2)
        note u = Some[unfolded rw Inr]
        from unique_writable_file_Inr[OF u] obtain n where
          cand: "out2 = gz_candidate dir (fst (os_path_splitext fname))
                   (snd (os_path_splitext fname) @ ''.gz'') n"
          and o: "files (emit (EvOpen p) w) out2 = None"
          and w2: "w2 = (emit (EvOpen p) w)\<lparr>files := (files (emit (EvOpen p) w))(out2 \<mapsto> File []),
                  trace := trace (emit (EvOpen p) w) @
                    map (\<lambda>m. EvExists (gz_candidate dir (fst (os_path_splitext fname))
                      (snd (os_path_splitext fname) @ ''.gz'') m)) [0..<n] @ [EvCreate out2]\<rparr>"
          by blast
        from o have o': "files w out2 = None" by (simp add: emit_def)
        from cand have np: "\<not> is_compress_path out2" by (simp add: gz_candidate_not_pattern)
        from o' f have ne: "out2 \<noteq> p" by auto
        let ?cw = "closed_world gz script p s out2 w2"
        let ?bytes = "gz (concat (written_lines script s)) (finish_fault script = None)"
        have fcw: "files ?cw = (files w)(out2 \<mapsto> File ?bytes)"
          by (simp add: closed_world_files w2 emit_def)
        note res = compress_created_result[OF f sp u, of gz script]
        show ?thesis
        proof (cases "stream_error script")
          case (Some e)
          with res c have "r = Inl e" "w' = ?cw" by simp_all
          with fcw o' np ne show ?thesis by blast
        next
          case None
          show ?thesis
          proof (cases "remove_fault script = None")
            case True
            with None res c have "r = Inr out2"
              "w' = ?cw\<lparr>files := (files ?cw)(p := None), trace := trace ?cw @ [EvRemove p]\<rparr>"
              by simp_all
            then have "r = Inr out2" "files w' = ((files w)(out2 \<mapsto> File ?bytes))(p := None)"
              by (simp_all add: fcw)
            with o' np ne pat show ?thesis by blast
          next
            case False
            with None res c have "r = Inr out2" "w' = ?cw" by simp_all
            with fcw o' np ne show ?thesis by blast
          qed
        qed
      qed
    qed
  qed
qed

lemma compress_others:
  assumes "compress gz script p w = Some (r, w')" and "files w q \<noteq> None" and "q \<noteq> p"
  shows "files w' q = files w q"
  using compress_files[OF assms(1)] assms(2,3)
  by (elim disjE exE conjE) (simp_all, fastforce+)

lemma compress_keeps:
  assumes "compress gz script p w = Some (r, w')" and "files w q \<noteq> None"
    and "\<not> is_compress_path q"
  shows "files w' q \<noteq> None"
  using compress_files[OF assms(1)] assms(2,3)
  by (elim disjE exE conjE) (simp_all, fastforce+)

lemma compress_fresh:
  assumes "compress gz script p w = Some (Inr out, w')"
  shows "files w out = None \<and> files w' out \<noteq> None \<and> \<not> is_compress_path out"
  using compress_files[OF assms(1)]
  by (elim disjE exE conjE) simp_all

lemma outputs_Cons:
  "outputs (r # rs) = (case r of Inl _ \<Rightarrow> [] | Inr out \<Rightarrow> [out]) @ outputs rs"
  by (simp add: outputs_def)

lemma compress_each_outputs:
  assumes "compress_each gz jobs w = Some (rs, w')"
  shows "(\<forall>q. files w q \<noteq> None \<and> \<not> is_compress_path q \<longrightarrow> files w' q \<noteq> None) \<and>
         (\<forall>out\<in>set (outputs rs).
            files w out = None \<and> files w' out \<noteq> None \<and> \<not> is_compress_path out) \<and>
         distinct (outputs rs)"
  using assms
proof (induction jobs arbitrary: w rs w')
  case Nil
  then show ?case by (simp add: outputs_def)
next
  case (Cons job jobs)
  obtain script p where job: "job = (script, p)" by (cases job)
  from Cons.prems obtain r w1 rs' where
    c: "compress gz script p w = Some (r, w1)"
    and rest: "compress_each gz jobs w1 = Some (rs', w')"
    and rs: "rs = r # rs'"
    by (auto simp: job split: option.splits prod.splits)
  from Cons.IH[OF rest] have
    IH1: "\<And>q. files w1 q \<noteq> None \<Longrightarrow> \<not> is_compress_path q \<Longrightarrow> files w' q \<noteq> None"
    and IH2: "\<And>out. out \<in> set (outputs rs') \<Longrightarrow>
       files w1 out = None \<and> files w' out \<noteq> None \<and> \<not> is_compress_path out"
    and IH3: "distinct (outputs rs')"
    by blast+
  have keep: "files w' q \<noteq> None" if "files w q \<noteq> None" "\<not> is_compress_path q" for q
    using IH1[OF compress_keeps[OF c that] that(2)] .
  have old: "files w out = None \<and> files w' out \<noteq> None \<and> \<not> is_compress_path out"
    if "out \<in> set (outputs rs')" for out
  proof -
    from IH2[OF that] have i: "files w1 out = None" "files w' out \<noteq> None" "\<not> is_compress_path out"
      by simp_all
    have "files w out = None"
    proof (rule ccontr)
      assume "files w out \<noteq> None"
      from compress_keeps[OF c this i(3)] i(1) show False by simp
    qed
    with i show ?thesis by simp
  qed
  show ?case
  proof (cases r)
    case (Inl x)
    then have "outputs rs = outputs rs'" by (simp add: rs outputs_Cons)
    then show ?thesis using keep old IH3 by simp
  next
    case (Inr out)
    then have o: "outputs rs = out # outputs rs'" by (simp add: rs outputs_Cons)
    from compress_fresh[OF c[unfolded Inr]]
    have new: "files w out = None" "files w1 out \<noteq> None" "\<not> is_compress_path out"
      by simp_all
    have n': "files w' out \<noteq> None" using IH1[OF new(2,3)] .
    have notin: "out \<notin> set (outputs rs')"
    proof
      assume "out \<in> set (outputs rs')"
      from IH2[OF this] new(2) show False by simp
    qed
    show ?thesis
      apply (intro conjI allI impI ballI)
      subgoal for q using keep[of q] by simp
      subgoal for x using old[of x] new(1) by (auto simp: o)
      subgoal for x using old[of x] n' by (auto simp: o)
      subgoal for x using old[of x] new(3) by (auto simp: o)
      subgoal using notin IH3 by (simp add: o)
      done
  qed
qed

section \<open>Compressions at the same time\<close>

text \<open>The loop of \<^verbatim>\<open>_unique_writable_file\<close> is the rounds of one call, one after the other.\<close>

lemma unique_loop_round:
  "unique_loop d pre suf c q w =
     (case attempt_round \<lparr>at_directory = d, at_prefix = pre, at_suffix = suf, at_count = c,
                          at_path = q, at_result = None\<rparr> w of
        (a', w') \<Rightarrow>
          (case at_result a' of
             Some r \<Rightarrow> Some (r, w')
           | None \<Rightarrow> unique_loop d pre suf (at_count a') (at_path a') w'))"
  by (subst unique_loop.simps)
     (simp add: attempt_round_def split: prod.splits sum.splits)

lemma os_open_excl_grows:
  assumes "os_open_excl p w = (r, w')" and "files w q \<noteq> None"
  shows "files w' q \<noteq> None"
  using assms
  by (auto simp: os_open_excl_def emit_def split: if_splits option.splits)

lemma os_open_excl_Inr:
  assumes "os_open_excl p w = (Inr u, w')"
  shows "files w p = None \<and> files w' p \<noteq> None"
  using assms
  by (auto simp: os_open_excl_def emit_def split: if_splits option.splits)

lemma attempt_round_grows:
  assumes "attempt_round a w = (a', w')" and "files w q \<noteq> None"
  shows "files w' q \<noteq> None"
proof (cases "at_result a")
  case (Some x)
  with assms show ?thesis by (simp add: attempt_round_def)
next
  case None
  obtain r w1 where o: "os_open_excl (at_path a) w = (r, w1)" by (cases "os_open_excl (at_path a) w")
  with None assms(1) have "w' = w1"
    by (cases r) (auto simp: attempt_round_def split: if_splits)
  with os_open_excl_grows[OF o assms(2)] show ?thesis by simp
qed

lemma attempt_round_result:
  assumes "attempt_round a w = (a', w')" and "at_result a' = Some (Inr p)"
  shows "(at_result a = Some (Inr p)) \<or> (at_result a = None \<and> files w p = None \<and> files w' p \<noteq> None)"
proof (cases "at_result a")
  case (Some x)
  with assms show ?thesis by (simp add: attempt_round_def)
next
  case None
  obtain r w1 where o: "os_open_excl (at_path a) w = (r, w1)" by (cases "os_open_excl (at_path a) w")
  show ?thesis
  proof (cases r)
    case (Inl e)
    with None o assms show ?thesis
      by (auto simp: attempt_round_def split: if_splits)
  next
    case (Inr u)
    with None o assms(1) have "a' = a\<lparr>at_result := Some (Inr (at_path a))\<rparr>" "w' = w1"
      by (simp_all add: attempt_round_def)
    with assms(2) have "p = at_path a" by simp
    with os_open_excl_Inr[OF o[unfolded Inr]] None \<open>w' = w1\<close> show ?thesis by simp
  qed
qed

lemma taken_apart_round:
  assumes inv: "taken_apart as w" and i: "i < length as"
    and r: "attempt_round (as ! i) w = (a', w')"
  shows "taken_apart (as[i := a']) w'"
proof -
  from inv have files: "\<And>k p. k < length as \<Longrightarrow> at_result (as ! k) = Some (Inr p) \<Longrightarrow> files w p \<noteq> None"
    and apart: "\<And>k j p q. k < length as \<Longrightarrow> j < length as \<Longrightarrow> k \<noteq> j \<Longrightarrow>
        at_result (as ! k) = Some (Inr p) \<Longrightarrow> at_result (as ! j) = Some (Inr q) \<Longrightarrow> p \<noteq> q"
    unfolding taken_apart_def by blast+
  have f': "files w' p \<noteq> None"
    if "k < length as" "at_result ((as[i := a']) ! k) = Some (Inr p)" for k p
  proof (cases "k = i")
    case True
    with that i have "at_result a' = Some (Inr p)" by simp
    from attempt_round_result[OF r this] show ?thesis
    proof
      assume "at_result (as ! i) = Some (Inr p)"
      from attempt_round_grows[OF r files[OF i this]] show ?thesis .
    next
      assume "at_result (as ! i) = None \<and> files w p = None \<and> files w' p \<noteq> None"
      then show ?thesis by simp
    qed
  next
    case False
    with that have "at_result (as ! k) = Some (Inr p)" by simp
    from attempt_round_grows[OF r files[OF that(1) this]] show ?thesis .
  qed
  have new_old: "p \<noteq> q"
    if "j < length as" "j \<noteq> i" "at_result a' = Some (Inr p)" "at_result (as ! j) = Some (Inr q)"
    for j p q
    using attempt_round_result[OF r that(3)]
  proof
    assume "at_result (as ! i) = Some (Inr p)"
    from apart[OF i that(1) that(2)[symmetric] this that(4)] show ?thesis .
  next
    assume a: "at_result (as ! i) = None \<and> files w p = None \<and> files w' p \<noteq> None"
    from files[OF that(1,4)] a show ?thesis by auto
  qed
  have a': "p \<noteq> q"
    if "k < length as" "j < length as" "k \<noteq> j"
      "at_result ((as[i := a']) ! k) = Some (Inr p)" "at_result ((as[i := a']) ! j) = Some (Inr q)"
    for k j p q
  proof (cases "k = i")
    case True
    with that have "at_result a' = Some (Inr p)" "at_result (as ! j) = Some (Inr q)" "j \<noteq> i"
      by simp_all
    from new_old[OF that(2) this(3) this(1) this(2)] show ?thesis .
  next
    case False
    note ki = this
    show ?thesis
    proof (cases "j = i")
      case True
      with that ki have "at_result a' = Some (Inr q)" "at_result (as ! k) = Some (Inr p)"
        by simp_all
      from new_old[OF that(1) ki this(1) this(2)] show ?thesis by simp
    next
      case False
      with that ki have "at_result (as ! k) = Some (Inr p)" "at_result (as ! j) = Some (Inr q)"
        by simp_all
      from apart[OF that(1,2,3) this] show ?thesis .
    qed
  qed
  show ?thesis
    unfolding taken_apart_def using f' a' by (simp del: nth_list_update)
qed

lemma taken_apart_interleave:
  assumes "taken_apart as w" and "interleave sched as w = (as', w')"
  shows "taken_apart as' w'"
  using assms
proof (induction sched arbitrary: as w)
  case Nil
  then show ?case by simp
next
  case (Cons i sched)
  show ?case
  proof (cases "i < length as")
    case True
    obtain a1 w1 where r: "attempt_round (as ! i) w = (a1, w1)"
      by (cases "attempt_round (as ! i) w")
    with Cons.prems(2) True have "interleave sched (as[i := a1]) w1 = (as', w')" by simp
    from Cons.IH[OF taken_apart_round[OF Cons.prems(1) True r] this] show ?thesis .
  next
    case False
    with Cons.prems(2) have "interleave sched as w = (as', w')" by simp
    from Cons.IH[OF Cons.prems(1) this] show ?thesis .
  qed
qed

lemma interleave_length: "interleave sched as w = (as', w') \<Longrightarrow> length as' = length as"
proof (induction sched arbitrary: as w)
  case Nil
  then show ?case by simp
next
  case (Cons i sched)
  show ?case
  proof (cases "i < length as")
    case True
    obtain a1 w1 where r: "attempt_round (as ! i) w = (a1, w1)"
      by (cases "attempt_round (as ! i) w")
    with Cons.prems True have "interleave sched (as[i := a1]) w1 = (as', w')" by simp
    from Cons.IH[OF this] show ?thesis by simp
  next
    case False
    with Cons.prems have "interleave sched as w = (as', w')" by simp
    from Cons.IH[OF this] show ?thesis .
  qed
qed

lemma taken_apart_start:
  assumes "\<forall>a\<in>set as. at_result a = None"
  shows "taken_apart as w"
  using assms by (simp add: taken_apart_def)

section \<open>With finitely many files every compression ends\<close>

lemma compress_returns:
  assumes "finite (dom (files w))"
  shows "\<exists>r w'. compress gz script p w = Some (r, w')"
proof (cases "\<exists>s. files w p = Some (File s)")
  case False
  then have "\<forall>s. files w p \<noteq> Some (File s)" by simp
  from compress_unopened[OF this, of gz script] show ?thesis by blast
next
  case True
  then obtain s where f: "files w p = Some (File s)" by blast
  show ?thesis
  proof (cases "split_compress_path p")
    case (Inl e)
    then show ?thesis using f by (simp add: compress_def os_open_read_def)
  next
    case (Inr df)
    obtain dir fname where sp: "split_compress_path p = Inr (dir, fname)"
      using Inr by (cases df) auto
    have "finite (dom (files (emit (EvOpen p) w)))" using assms by (simp add: emit_def)
    from unique_writable_file_returns[OF this] obtain r2 w2 where
      u: "unique_writable_file dir (fst (os_path_splitext fname))
            (snd (os_path_splitext fname) @ ''.gz'') (emit (EvOpen p) w) = Some (r2, w2)"
      by blast
    show ?thesis
    proof (cases r2)
      case (Inl e)
      from compress_not_created[OF f sp u[unfolded Inl]] show ?thesis by simp
    next
      case (Inr out)
      from compress_created_result[OF f sp u[unfolded Inr], of gz script] show ?thesis
        by (cases "stream_error script") simp_all
    qed
  qed
qed

lemma compress_finite:
  assumes "compress gz script p w = Some (r, w')" and "finite (dom (files w))"
  shows "finite (dom (files w'))"
  using compress_files[OF assms(1)] assms(2)
  by (elim disjE exE conjE) simp_all

lemma compress_each_returns:
  assumes "finite (dom (files w))"
  shows "\<exists>rs w'. compress_each gz jobs w = Some (rs, w') \<and> length rs = length jobs"
  using assms
proof (induction jobs arbitrary: w)
  case Nil
  then show ?case by simp
next
  case (Cons job jobs)
  obtain script p where job: "job = (script, p)" by (cases job)
  from compress_returns[OF Cons.prems, of gz script p] obtain r w1 where
    c: "compress gz script p w = Some (r, w1)" by blast
  from Cons.IH[OF compress_finite[OF c Cons.prems]] obtain rs w' where
    "compress_each gz jobs w1 = Some (rs, w')" "length rs = length jobs" by blast
  with c show ?case by (simp add: job)
qed

text \<open>The path \<^verbatim>\<open>compress\<close> returns is one of the names of the loop, the first free one.\<close>

lemma compress_output_name:
  assumes "compress gz script p w = Some (Inr out, w')"
  shows "\<exists>dir fname n. split_compress_path p = Inr (dir, fname) \<and>
           out = gz_candidate dir (fst (os_path_splitext fname))
                   (snd (os_path_splitext fname) @ ''.gz'') n \<and>
           (\<forall>m<n. files w (gz_candidate dir (fst (os_path_splitext fname))
                   (snd (os_path_splitext fname) @ ''.gz'') m) \<noteq> None)"
proof (cases "\<exists>s. files w p = Some (File s)")
  case False
  then have "\<forall>s. files w p \<noteq> Some (File s)" by simp
  from compress_unopened[OF this, of gz script] assms show ?thesis by auto
next
  case True
  then obtain s where f: "files w p = Some (File s)" by blast
  show ?thesis
  proof (cases "split_compress_path p")
    case (Inl e)
    then show ?thesis using f assms by (simp add: compress_def os_open_read_def)
  next
    case (Inr df)
    obtain dir fname where sp: "split_compress_path p = Inr (dir, fname)"
      using Inr by (cases df) auto
    let ?u = "unique_writable_file dir (fst (os_path_splitext fname))
             (snd (os_path_splitext fname) @ ''.gz'') (emit (EvOpen p) w)"
    show ?thesis
    proof (cases ?u)
      case None
      from compress_loops[OF f sp None] assms show ?thesis by simp
    next
      case (Some rw)
      obtain r2 w2 where rw: "rw = (r2, w2)" by (cases rw)
      show ?thesis
      proof (cases r2)
        case (Inl e2)
        from compress_not_created[OF f sp Some[unfolded rw Inl]] assms show ?thesis by simp
      next
        case (Inr out2)
        note u = Some[unfolded rw Inr]
        from compress_created_result[OF f sp u, of gz script] assms have o: "out = out2"
          by (cases "stream_error script") simp_all
        from unique_writable_file_Inr[OF u] obtain n where
          "out2 = gz_candidate dir (fst (os_path_splitext fname))
                   (snd (os_path_splitext fname) @ ''.gz'') n"
          "\<forall>m<n. files (emit (EvOpen p) w) (gz_candidate dir (fst (os_path_splitext fname))
                   (snd (os_path_splitext fname) @ ''.gz'') m) \<noteq> None"
          by blast
        then show ?thesis using sp o by (intro exI[of _ dir] exI[of _ fname] exI[of _ n]) (simp add: emit_def)
      qed
    qed
  qed
qed

lemma format_08d_one: "format_08d 1 = ''00000001''"
  by (simp add: format_08d_def digits10.simps numeral_eq_Suc)

lemma unique_writable_file_first_free:
  assumes "finite (dom (files w))"
  shows "\<exists>n r w'. unique_writable_file d pre suf w = Some (r, w') \<and>
           (\<forall>m<n. files w (gz_candidate d pre suf m) \<noteq> None) \<and>
           files w (gz_candidate d pre suf n) = None \<and>
           trace w' = trace w @ map (\<lambda>m. EvExists (gz_candidate d pre suf m)) [0..<n] @
             (case r of Inl _ \<Rightarrow> [] | Inr _ \<Rightarrow> [EvCreate (gz_candidate d pre suf n)]) \<and>
           (case r of
              Inr out \<Rightarrow> out = gz_candidate d pre suf n \<and> files w' = (files w)(out \<mapsto> File [])
            | Inl e \<Rightarrow> files w' = files w \<and>
                (\<exists>x. e = OSError x \<and> x \<noteq> EEXIST \<and>
                   parent_error (files w) (gz_candidate d pre suf n) = Some x))"
proof -
  from first_free_candidate[OF assms, of 0 d pre suf] obtain n where
    n: "\<forall>m. 0 \<le> m \<and> m < n \<longrightarrow> files w (gz_candidate d pre suf m) \<noteq> None"
       "files w (gz_candidate d pre suf n) = None"
    by blast
  have u: "unique_writable_file d pre suf w = unique_loop d pre suf 0 (gz_candidate d pre suf 0) w"
    by (simp add: unique_writable_file_def gz_candidate_def)
  note l = unique_loop_least[OF n, folded u]
  show ?thesis
  proof (cases "parent_error (files w) (gz_candidate d pre suf n)")
    case None
    with l have "unique_writable_file d pre suf w =
        Some (Inr (gz_candidate d pre suf n),
              w\<lparr>files := (files w)(gz_candidate d pre suf n \<mapsto> File []),
                trace := trace w @ map (\<lambda>m. EvExists (gz_candidate d pre suf m)) [0..<n] @
                           [EvCreate (gz_candidate d pre suf n)]\<rparr>)"
      by simp
    then show ?thesis using n
      by (intro exI[of _ n] exI[of _ "Inr (gz_candidate d pre suf n)"]
            exI[of _ "w\<lparr>files := (files w)(gz_candidate d pre suf n \<mapsto> File []),
                trace := trace w @ map (\<lambda>m. EvExists (gz_candidate d pre suf m)) [0..<n] @
                           [EvCreate (gz_candidate d pre suf n)]\<rparr>"]) simp
  next
    case (Some x)
    with l have "unique_writable_file d pre suf w =
        Some (Inl (OSError x),
              w\<lparr>trace := trace w @ map (\<lambda>m. EvExists (gz_candidate d pre suf m)) [0..<n]\<rparr>)"
      by simp
    then show ?thesis using n Some parent_error_not_EEXIST[of "files w" "gz_candidate d pre suf n"]
      by (intro exI[of _ n] exI[of _ "Inl (OSError x)"]
            exI[of _ "w\<lparr>trace := trace w @ map (\<lambda>m. EvExists (gz_candidate d pre suf m)) [0..<n]\<rparr>"])
         auto
  qed
qed

lemma compress_fresh_output:
  assumes "finite (dom (files w))"
  shows "\<exists>r w'. compress gz script p w = Some (r, w') \<and>
           (\<forall>out. r = Inr out \<longrightarrow>
              files w out = None \<and> files w' out \<noteq> None \<and>
              (\<exists>dir fname n. split_compress_path p = Inr (dir, fname) \<and>
                 out = gz_candidate dir (fst (os_path_splitext fname))
                         (snd (os_path_splitext fname) @ ''.gz'') n \<and>
                 (\<forall>m<n. files w (gz_candidate dir (fst (os_path_splitext fname))
                         (snd (os_path_splitext fname) @ ''.gz'') m) \<noteq> None))) \<and>
           (\<forall>q. files w q \<noteq> None \<and> q \<noteq> p \<longrightarrow> files w' q = files w q)"
proof -
  from compress_returns[OF assms, of gz script p] obtain r w' where
    c: "compress gz script p w = Some (r, w')" by blast
  have a: "files w out = None \<and> files w' out \<noteq> None \<and>
              (\<exists>dir fname n. split_compress_path p = Inr (dir, fname) \<and>
                 out = gz_candidate dir (fst (os_path_splitext fname))
                         (snd (os_path_splitext fname) @ ''.gz'') n \<and>
                 (\<forall>m<n. files w (gz_candidate dir (fst (os_path_splitext fname))
                         (snd (os_path_splitext fname) @ ''.gz'') m) \<noteq> None))"
    if "r = Inr out" for out
    using compress_fresh[OF c[unfolded that]] compress_output_name[OF c[unfolded that]] by simp
  have b: "files w' q = files w q" if "files w q \<noteq> None \<and> q \<noteq> p" for q
    using compress_others[OF c] that by simp
  show ?thesis
    apply (rule exI[of _ r], rule exI[of _ w'])
    apply (intro conjI)
    subgoal by (rule c)
    subgoal using a by blast
    subgoal using b by blast
    done
qed

lemma compress_each_distinct:
  assumes "finite (dom (files w))"
  shows "\<exists>rs w'. compress_each gz jobs w = Some (rs, w') \<and> length rs = length jobs \<and>
           distinct (outputs rs) \<and>
           (\<forall>out\<in>set (outputs rs). files w out = None \<and> files w' out \<noteq> None)"
proof -
  from compress_each_returns[OF assms, of gz jobs] obtain rs w' where
    c: "compress_each gz jobs w = Some (rs, w')" "length rs = length jobs" by blast
  from compress_each_outputs[OF c(1)] have "distinct (outputs rs)"
    "\<forall>out\<in>set (outputs rs). files w out = None \<and> files w' out \<noteq> None"
    by blast+
  with c show ?thesis by blast
qed

lemma interleave_apart:
  assumes "\<forall>a\<in>set as. at_result a = None" and "interleave sched as w = (as', w')"
  shows "length as' = length as \<and>
         (\<forall>i<length as'. \<forall>j<length as'. \<forall>p q.
            i \<noteq> j \<and> at_result (as' ! i) = Some (Inr p) \<and> at_result (as' ! j) = Some (Inr q) \<longrightarrow>
            p \<noteq> q) \<and>
         (\<forall>i<length as'. \<forall>p. at_result (as' ! i) = Some (Inr p) \<longrightarrow> files w' p \<noteq> None)"
proof -
  from taken_apart_interleave[OF taken_apart_start[OF assms(1)] assms(2)]
  have "taken_apart as' w'" .
  then show ?thesis using interleave_length[OF assms(2)] unfolding taken_apart_def by simp
qed

text \<open>
  Claim C4. With finitely many files, \<^verbatim>\<open>_unique_writable_file\<close> ends. It has tried the
  plain name first and then the names with the count 1, 2, ... (eight digits, padded
  with zeros), each with one exclusive create, until the first name that was free: every
  name before it was taken, and the trace has one failed create for each of them. When it
  yields a path, that path named nothing before the call, and the only change to the
  files is the new, empty file at it; when it raises, it is for the directory of the
  name, and no file has changed. So \<^verbatim>\<open>compress\<close> ends too, the path it returns is such a
  first free name made from the file name without its tag and \<open>.gz\<close>, it named nothing
  before the call, and every other file that was there, the original apart, is as it
  was. Calls of \<^verbatim>\<open>compress\<close> one after the other, on any paths, all end and return
  paths that differ from each other. And when several calls of
  \<^verbatim>\<open>_unique_writable_file\<close> run at the same time, their creates in any order, no two of
  them take the same path; the rounds of such a call are the rounds of the loop.
\<close>

theorem unique_writable_file_fresh:
  assumes "finite (dom (files w))"
  shows "(\<exists>n r w'. unique_writable_file d pre suf w = Some (r, w') \<and>
            (\<forall>m<n. files w (gz_candidate d pre suf m) \<noteq> None) \<and>
            files w (gz_candidate d pre suf n) = None \<and>
            trace w' = trace w @ map (\<lambda>m. EvExists (gz_candidate d pre suf m)) [0..<n] @
              (case r of Inl _ \<Rightarrow> [] | Inr _ \<Rightarrow> [EvCreate (gz_candidate d pre suf n)]) \<and>
            (case r of
               Inr out \<Rightarrow> out = gz_candidate d pre suf n \<and> files w' = (files w)(out \<mapsto> File [])
             | Inl e \<Rightarrow> files w' = files w \<and>
                 (\<exists>x. e = OSError x \<and> x \<noteq> EEXIST \<and>
                    parent_error (files w) (gz_candidate d pre suf n) = Some x))) \<and>
         gz_candidate d pre suf 0 = os_path_join d (pre @ suf) \<and>
         (\<forall>n. 0 < n \<longrightarrow>
            gz_candidate d pre suf n = os_path_join d (pre @ ''-'' @ format_08d n @ suf)) \<and>
         format_08d 1 = ''00000001'' \<and>
         (\<forall>n. n < 10 ^ 8 \<longrightarrow> length (format_08d n) = 8) \<and>
         (\<forall>n m. format_08d n = format_08d m \<longrightarrow> n = m) \<and>
         (\<exists>r w'. compress gz script p w = Some (r, w') \<and>
            (\<forall>out. r = Inr out \<longrightarrow>
               files w out = None \<and> files w' out \<noteq> None \<and>
               (\<exists>dir fname n. split_compress_path p = Inr (dir, fname) \<and>
                  out = gz_candidate dir (fst (os_path_splitext fname))
                          (snd (os_path_splitext fname) @ ''.gz'') n \<and>
                  (\<forall>m<n. files w (gz_candidate dir (fst (os_path_splitext fname))
                          (snd (os_path_splitext fname) @ ''.gz'') m) \<noteq> None))) \<and>
            (\<forall>q. files w q \<noteq> None \<and> q \<noteq> p \<longrightarrow> files w' q = files w q)) \<and>
         (\<exists>rs w'. compress_each gz jobs w = Some (rs, w') \<and> length rs = length jobs \<and>
            distinct (outputs rs) \<and>
            (\<forall>out\<in>set (outputs rs). files w out = None \<and> files w' out \<noteq> None)) \<and>
         (\<forall>as' w'. (\<forall>a\<in>set as. at_result a = None) \<and> interleave sched as w = (as', w') \<longrightarrow>
            length as' = length as \<and>
            (\<forall>i<length as'. \<forall>j<length as'. \<forall>p q.
               i \<noteq> j \<and> at_result (as' ! i) = Some (Inr p) \<and>
               at_result (as' ! j) = Some (Inr q) \<longrightarrow> p \<noteq> q) \<and>
            (\<forall>i<length as'. \<forall>p. at_result (as' ! i) = Some (Inr p) \<longrightarrow> files w' p \<noteq> None)) \<and>
         (\<forall>c q. unique_loop d pre suf c q w =
            (case attempt_round \<lparr>at_directory = d, at_prefix = pre, at_suffix = suf, at_count = c,
                                 at_path = q, at_result = None\<rparr> w of
               (a', w') \<Rightarrow>
                 (case at_result a' of
                    Some r \<Rightarrow> Some (r, w')
                  | None \<Rightarrow> unique_loop d pre suf (at_count a') (at_path a') w')))"
  apply (intro conjI)
  subgoal by (rule unique_writable_file_first_free[OF assms])
  subgoal by (simp add: gz_candidate_def)
  subgoal by (simp add: gz_candidate_def)
  subgoal by (rule format_08d_one)
  subgoal using format_08d_length by blast
  subgoal using format_08d_inj by blast
  subgoal by (rule compress_fresh_output[OF assms])
  subgoal by (rule compress_each_distinct[OF assms])
  subgoal using interleave_apart by blast
  subgoal using unique_loop_round by blast
  done

lemma twice_split:
  "split_compress_path ''/a/01.json.compress-89abcdef'' = Inr (''/a'', ''01.json'')"
  by (simp add: split_compress_path_def os_path_split_def rfind1_def rstrip_def
      re_match_compress_def tag_end_def is_hex_def ascii_lower_def newline_def)

lemma gz_names:
  "gz_candidate ''/a'' ''01'' ''.json.gz'' 0 = ''/a/01.json.gz''"
  "gz_candidate ''/a'' ''01'' ''.json.gz'' (Suc 0) = ''/a/01-00000001.json.gz''"
  by (simp_all add: gz_candidate_def os_path_join_def startswith_def endswith_def format_08d_def
      digits10.simps numeral_eq_Suc)

lemma gz_parent: "parent_error f ''/a/01.json.gz'' = (case f ''/a'' of Some Dir \<Rightarrow> None | Some (File _) \<Rightarrow> Some ENOTDIR | None \<Rightarrow> Some ENOENT)"
  "parent_error f ''/a/01-00000001.json.gz'' = (case f ''/a'' of Some Dir \<Rightarrow> None | Some (File _) \<Rightarrow> Some ENOTDIR | None \<Rightarrow> Some ENOENT)"
  by (simp_all add: parent_error_def os_path_split_def rfind1_def rstrip_def)

text \<open>The first compression takes the plain name.\<close>

lemma twice_first:
  "\<exists>w1. compress stored_gz no_faults ''/a/01.json.compress-0123abcd'' twice_world =
          Some (Inr ''/a/01.json.gz'', w1) \<and>
        files w1 = empty_fs(''/a'' \<mapsto> Dir, ''/a/01.json.compress-89abcdef'' \<mapsto> File ''y\<newline>'',
                     ''/a/01.json.gz'' \<mapsto> File ''GZ[x\<newline>]'')"
proof -
  let ?p = "''/a/01.json.compress-0123abcd''"
  let ?w = "emit (EvOpen ?p) twice_world"
  have f: "files twice_world ?p = Some (File ''x\<newline>'')" by (simp add: twice_world_def)
  have free: "files ?w (gz_candidate ''/a'' ''01'' ''.json.gz'' 0) = None"
    by (simp add: gz_names emit_def twice_world_def empty_fs_def)
  have taken: "\<forall>m. 0 \<le> m \<and> m < 0 \<longrightarrow> files ?w (gz_candidate ''/a'' ''01'' ''.json.gz'' m) \<noteq> None"
    by simp
  have par: "parent_error (files ?w) (gz_candidate ''/a'' ''01'' ''.json.gz'' 0) = None"
    by (simp add: gz_names gz_parent emit_def twice_world_def)
  from unique_loop_least[OF taken free]
  have "\<exists>w2. unique_loop ''/a'' ''01'' ''.json.gz'' 0 (gz_candidate ''/a'' ''01'' ''.json.gz'' 0) ?w =
      Some (Inr (gz_candidate ''/a'' ''01'' ''.json.gz'' 0), w2) \<and>
      files w2 = (files ?w)(gz_candidate ''/a'' ''01'' ''.json.gz'' 0 \<mapsto> File [])"
    by (simp only: par option.case) simp
  then obtain w2 where
    u: "unique_writable_file ''/a'' (fst (os_path_splitext ''01.json''))
          (snd (os_path_splitext ''01.json'') @ ''.gz'') ?w = Some (Inr ''/a/01.json.gz'', w2)"
    and w2: "files w2 = (files ?w)(''/a/01.json.gz'' \<mapsto> File [])"
    by (auto simp: unique_writable_file_def day_splitext gz_names
        gz_names(1)[unfolded gz_candidate_def, simplified])
  note r = compress_created_result[OF f day_split u, of stored_gz no_faults]
  have se: "stream_error no_faults = None" "remove_fault no_faults = None"
    by (simp_all add: stream_error_def no_faults_def)
  have wl: "written_lines no_faults ''x\<newline>'' = [''x\<newline>'']" "finish_fault no_faults = None"
    by (simp_all add: written_lines_def no_faults_def newline_def)
  have "files (closed_world stored_gz no_faults ?p ''x\<newline>'' ''/a/01.json.gz'' w2) =
      (files twice_world)(''/a/01.json.gz'' \<mapsto> File ''GZ[x\<newline>]'')"
    by (simp add: closed_world_files w2 wl stored_gz_def emit_def)
  then have "files ((closed_world stored_gz no_faults ?p ''x\<newline>'' ''/a/01.json.gz'' w2)
      \<lparr>files := (files (closed_world stored_gz no_faults ?p ''x\<newline>'' ''/a/01.json.gz'' w2))(?p := None),
        trace := trace (closed_world stored_gz no_faults ?p ''x\<newline>'' ''/a/01.json.gz'' w2) @ [EvRemove ?p]\<rparr>) =
      empty_fs(''/a'' \<mapsto> Dir, ''/a/01.json.compress-89abcdef'' \<mapsto> File ''y\<newline>'',
                     ''/a/01.json.gz'' \<mapsto> File ''GZ[x\<newline>]'')"
    by (auto simp: twice_world_def empty_fs_def fun_eq_iff)
  with r show ?thesis by (simp add: se)
qed

text \<open>The second finds the plain name taken and takes the name with the count 1.\<close>

lemma twice_second:
  assumes w1: "files w1 = empty_fs(''/a'' \<mapsto> Dir, ''/a/01.json.compress-89abcdef'' \<mapsto> File ''y\<newline>'',
                     ''/a/01.json.gz'' \<mapsto> File ''GZ[x\<newline>]'')"
  shows "\<exists>w'. compress stored_gz no_faults ''/a/01.json.compress-89abcdef'' w1 =
          Some (Inr ''/a/01-00000001.json.gz'', w')"
proof -
  let ?p = "''/a/01.json.compress-89abcdef''"
  let ?w = "emit (EvOpen ?p) w1"
  have f: "files w1 ?p = Some (File ''y\<newline>'')" by (simp add: w1)
  have taken: "\<forall>m. 0 \<le> m \<and> m < Suc 0 \<longrightarrow> files ?w (gz_candidate ''/a'' ''01'' ''.json.gz'' m) \<noteq> None"
    by (simp add: gz_names emit_def w1)
  have free: "files ?w (gz_candidate ''/a'' ''01'' ''.json.gz'' (Suc 0)) = None"
    by (simp add: gz_names emit_def w1 empty_fs_def)
  have par: "parent_error (files ?w) (gz_candidate ''/a'' ''01'' ''.json.gz'' (Suc 0)) = None"
    by (simp add: gz_names gz_parent emit_def w1)
  from unique_loop_least[OF taken free]
  have "\<exists>w2. unique_loop ''/a'' ''01'' ''.json.gz'' 0 (gz_candidate ''/a'' ''01'' ''.json.gz'' 0) ?w =
      Some (Inr (gz_candidate ''/a'' ''01'' ''.json.gz'' (Suc 0)), w2)"
    by (simp only: par option.case) blast
  then obtain w2 where
    u: "unique_writable_file ''/a'' (fst (os_path_splitext ''01.json''))
          (snd (os_path_splitext ''01.json'') @ ''.gz'') ?w = Some (Inr ''/a/01-00000001.json.gz'', w2)"
    by (auto simp: unique_writable_file_def day_splitext gz_names
        gz_names(1)[unfolded gz_candidate_def, simplified])
  have se: "stream_error no_faults = None" "remove_fault no_faults = None"
    by (simp_all add: stream_error_def no_faults_def)
  from compress_created_result[OF f twice_split u, of stored_gz no_faults] show ?thesis
    by (simp add: se)
qed

lemma twice_both:
  "\<exists>w'. compress_each stored_gz
          [(no_faults, ''/a/01.json.compress-0123abcd''), (no_faults, ''/a/01.json.compress-89abcdef'')]
          twice_world =
        Some ([Inr ''/a/01.json.gz'', Inr ''/a/01-00000001.json.gz''], w')"
proof -
  from twice_first obtain w1 where
    c1: "compress stored_gz no_faults ''/a/01.json.compress-0123abcd'' twice_world =
          Some (Inr ''/a/01.json.gz'', w1)"
    and w1: "files w1 = empty_fs(''/a'' \<mapsto> Dir, ''/a/01.json.compress-89abcdef'' \<mapsto> File ''y\<newline>'',
                     ''/a/01.json.gz'' \<mapsto> File ''GZ[x\<newline>]'')"
    by blast
  from twice_second[OF w1] obtain w2 where
    c2: "compress stored_gz no_faults ''/a/01.json.compress-89abcdef'' w1 =
          Some (Inr ''/a/01-00000001.json.gz'', w2)"
    by blast
  show ?thesis by (simp add: c1 c2)
qed

lemma interleave_two:
  "map at_result (fst (interleave [0, 1, 1]
      [start_attempt ''/a'' ''01'' ''.json.gz'', start_attempt ''/a'' ''01'' ''.json.gz''] twice_world)) =
   [Some (Inr ''/a/01.json.gz''), Some (Inr ''/a/01-00000001.json.gz'')]"
proof -
  have j: "os_path_join ''/a'' ''01.json.gz'' = ''/a/01.json.gz''"
    "os_path_join ''/a'' (CHR ''0'' # CHR ''1'' # CHR ''-'' # format_08d (Suc 0) @ ''.json.gz'') =
       ''/a/01-00000001.json.gz''"
    by (simp_all add: os_path_join_def startswith_def endswith_def format_08d_def digits10.simps
        numeral_eq_Suc)
  show ?thesis
    by (simp add: start_attempt_def attempt_round_def os_open_excl_def j gz_parent emit_def
        twice_world_def empty_fs_def)
qed

theorem unique_writable_file_fresh_witness:
  "finite (dom (files day_world)) \<and> finite (dom (files twice_world)) \<and>
   (\<exists>w'. unique_writable_file ''/a'' ''01'' ''.json.gz'' day_world =
            Some (Inr ''/a/01-00000001.json.gz'', w') \<and>
          trace w' = [EvExists ''/a/01.json.gz'', EvCreate ''/a/01-00000001.json.gz''] \<and>
          files w' = (files day_world)(''/a/01-00000001.json.gz'' \<mapsto> File [])) \<and>
   (\<exists>w'. compress_each stored_gz
            [(no_faults, ''/a/01.json.compress-0123abcd''),
             (no_faults, ''/a/01.json.compress-89abcdef'')] twice_world =
          Some ([Inr ''/a/01.json.gz'', Inr ''/a/01-00000001.json.gz''], w')) \<and>
   distinct (outputs [Inr ''/a/01.json.gz'', Inr ''/a/01-00000001.json.gz'']) \<and>
   map at_result (fst (interleave [0, 1, 1]
      [start_attempt ''/a'' ''01'' ''.json.gz'', start_attempt ''/a'' ''01'' ''.json.gz''] twice_world)) =
     [Some (Inr ''/a/01.json.gz''), Some (Inr ''/a/01-00000001.json.gz'')]"
proof -
  have fd: "finite (dom (files day_world))" by (simp add: day_world_def empty_fs_def)
  have ft: "finite (dom (files twice_world))" by (simp add: twice_world_def empty_fs_def)
  have t0: "trace day_world = []" by (simp add: day_world_def)
  have ex0: "files day_world (gz_candidate ''/a'' ''01'' ''.json.gz'' 0) \<noteq> None"
    by (simp add: gz_names day_world_def)
  have fr1: "files day_world (gz_candidate ''/a'' ''01'' ''.json.gz'' (Suc 0)) = None"
    by (simp add: gz_names day_world_def empty_fs_def)
  have par: "parent_error (files day_world) (gz_candidate ''/a'' ''01'' ''.json.gz'' (Suc 0)) = None"
    by (simp add: gz_names gz_parent day_world_def)
  from unique_writable_file_fresh[OF fd, of "''/a''" "''01''" "''.json.gz''", THEN conjunct1]
  obtain n r w' where
    u: "unique_writable_file ''/a'' ''01'' ''.json.gz'' day_world = Some (r, w')"
    and tk: "\<forall>m<n. files day_world (gz_candidate ''/a'' ''01'' ''.json.gz'' m) \<noteq> None"
    and fr: "files day_world (gz_candidate ''/a'' ''01'' ''.json.gz'' n) = None"
    and tr: "trace w' = trace day_world @
        map (\<lambda>m. EvExists (gz_candidate ''/a'' ''01'' ''.json.gz'' m)) [0..<n] @
        (case r of Inl _ \<Rightarrow> [] | Inr _ \<Rightarrow> [EvCreate (gz_candidate ''/a'' ''01'' ''.json.gz'' n)])"
    and res: "(case r of
         Inr out \<Rightarrow> out = gz_candidate ''/a'' ''01'' ''.json.gz'' n \<and>
           files w' = (files day_world)(out \<mapsto> File [])
       | Inl e \<Rightarrow> files w' = files day_world \<and>
           (\<exists>x. e = OSError x \<and> x \<noteq> EEXIST \<and>
              parent_error (files day_world) (gz_candidate ''/a'' ''01'' ''.json.gz'' n) = Some x))"
    by blast
  have n: "n = Suc 0"
  proof (rule ccontr)
    assume "n \<noteq> Suc 0"
    then consider "n = 0" | "Suc 0 < n" by linarith
    then show False
    proof cases
      case 1
      with fr ex0 show False by simp
    next
      case 2
      with tk fr1 show False by blast
    qed
  qed
  have r: "r = Inr ''/a/01-00000001.json.gz''"
    using res par by (cases r) (simp_all add: n gz_names)
  have first: "\<exists>w'. unique_writable_file ''/a'' ''01'' ''.json.gz'' day_world =
            Some (Inr ''/a/01-00000001.json.gz'', w') \<and>
          trace w' = [EvExists ''/a/01.json.gz'', EvCreate ''/a/01-00000001.json.gz''] \<and>
          files w' = (files day_world)(''/a/01-00000001.json.gz'' \<mapsto> File [])"
    using u tr res by (intro exI[of _ w']) (simp add: r n t0 gz_names)
  from unique_writable_file_fresh[OF ft, THEN conjunct2, THEN conjunct2, THEN conjunct2,
      THEN conjunct2, THEN conjunct2, THEN conjunct2, THEN conjunct2, THEN conjunct1,
      of stored_gz
      "[(no_faults, ''/a/01.json.compress-0123abcd''), (no_faults, ''/a/01.json.compress-89abcdef'')]"]
  obtain rs w2 where
    "compress_each stored_gz
       [(no_faults, ''/a/01.json.compress-0123abcd''), (no_faults, ''/a/01.json.compress-89abcdef'')]
       twice_world = Some (rs, w2)" and d: "distinct (outputs rs)"
    by blast
  with twice_both have "rs = [Inr ''/a/01.json.gz'', Inr ''/a/01-00000001.json.gz'']" by auto
  with d have dist: "distinct (outputs [Inr ''/a/01.json.gz'', Inr ''/a/01-00000001.json.gz''])"
    by simp
  show ?thesis
    using fd ft first twice_both dist interleave_two by (intro conjI)
qed










section \<open>The compressor and a path it cannot use\<close>






section \<open>The collector: a rotation with a file open, from the call to its end\<close>

lemma append_bytes_isfile: "isfile (files (append_bytes p b w)) q = isfile (files w) q"
  by (simp add: append_bytes_def isfile_def split: option.splits node.splits)

lemma create_None:
  "create_compress_path f p rs = None \<longleftrightarrow> (\<forall>r\<in>set rs. isfile f (compress_candidate p r))"
  by (induction rs) (auto simp: Let_def)

lemma rename_None: "rename draws p w = None \<longleftrightarrow> create_compress_path (files w) p draws = None"
  by (auto simp: rename_def split: option.splits prod.splits sum.splits)

text \<open>The round does not return only when every draw names a file that exists.\<close>

lemma collect_rotation_None:
  assumes "closed h = False"
  shows "collect_round cwd archive_dir room_name draws RotateEvent (Some h) w = None \<longleftrightarrow>
           (\<forall>r\<in>set draws. isfile (files w) (compress_candidate (name h) r))"
proof -
  let ?w2 = "emit (EvClose (name h)) (emit (EvFlush (name h)) (append_bytes (name h) (pending h) w))"
  have i: "isfile (files ?w2) q = isfile (files w) q" for q
    using append_bytes_isfile[of "name h" "pending h" w q] by (simp add: emit_def)
  have "collect_round cwd archive_dir room_name draws RotateEvent (Some h) w = None \<longleftrightarrow>
      rename draws (name h) ?w2 = None"
    unfolding collect_rotate_open[OF assms]
    by (auto split: option.splits prod.splits sum.splits)
  also have "\<dots> \<longleftrightarrow> create_compress_path (files ?w2) (name h) draws = None"
    by (rule rename_None)
  also have "\<dots> \<longleftrightarrow> (\<forall>r\<in>set draws. isfile (files ?w2) (compress_candidate (name h) r))"
    by (rule create_None)
  finally show ?thesis unfolding i .
qed

text \<open>
  Claim C6. Take a round of \<^verbatim>\<open>_collect\<close> that gets the rotate event while a file is
  open. The round returns unless every draw of \<^verbatim>\<open>_create_compress_path\<close> names a file
  that exists, which keeps its loop running. When one draw names no such file, the
  round returns, and it has first flushed the file and then closed it, and only then
  renamed: the trace of the round starts with the flush and the close. When no
  exception ends the round, the trace goes on with the rename of the file to a path
  \<^verbatim>\<open>_create_compress_path\<close> has made from its name and then with that path put in the
  queue with delay 0, and nothing else; \<^verbatim>\<open>archive\<close> is \<^verbatim>\<open>None\<close> again; the old name is
  gone and the new path holds the bytes of the file with what was pending. When an
  exception ends the round, it is the rename that raised it: nothing was renamed and
  nothing queued. And no exception ends the round when the file is still at its name,
  in a directory, and no draw names a directory.
\<close>

theorem collect_rotation_writing:
  assumes "closed h = False"
  shows "(collect_round cwd archive_dir room_name draws RotateEvent (Some h) w = None \<longleftrightarrow>
            (\<forall>r\<in>set draws. isfile (files w) (compress_candidate (name h) r))) \<and>
         ((\<exists>r\<in>set draws. \<not> isfile (files w) (compress_candidate (name h) r)) \<longrightarrow>
          (\<exists>err archive' w'.
             collect_round cwd archive_dir room_name draws RotateEvent (Some h) w =
               Some (err, archive', w') \<and>
             (\<exists>rest. trace w' = trace w @ [EvFlush (name h), EvClose (name h)] @ rest \<and>
                (err = None \<longrightarrow>
                   archive' = None \<and>
                   (\<exists>new_path. rest = [EvRename (name h) new_path, EvQueue 0 new_path] \<and>
                      queue w' = queue w @ [(0, new_path)] \<and>
                      (\<exists>r\<in>set draws. new_path = compress_candidate (name h) r) \<and>
                      files w' (name h) = None \<and>
                      (\<forall>s. files w (name h) = Some (File s) \<longrightarrow>
                         files w' new_path = Some (File (s @ pending h))))) \<and>
                (err \<noteq> None \<longrightarrow>
                   rest = [] \<and> queue w' = queue w \<and>
                   archive' = Some (h\<lparr>pending := [], closed := True\<rparr>))) \<and>
             ((\<exists>s. files w (name h) = Some (File s)) \<and>
              files w (fst (os_path_split (name h))) = Some Dir \<and>
              (\<forall>r\<in>set draws. files w (compress_candidate (name h) r) \<noteq> Some Dir) \<longrightarrow>
              err = None)))"
proof (intro conjI impI)
  show "collect_round cwd archive_dir room_name draws RotateEvent (Some h) w = None \<longleftrightarrow>
            (\<forall>r\<in>set draws. isfile (files w) (compress_candidate (name h) r))"
    by (rule collect_rotation_None[OF assms])
next
  assume "\<exists>r\<in>set draws. \<not> isfile (files w) (compress_candidate (name h) r)"
  then have "collect_round cwd archive_dir room_name draws RotateEvent (Some h) w \<noteq> None"
    unfolding collect_rotation_None[OF assms] by blast
  then obtain x where
    "collect_round cwd archive_dir room_name draws RotateEvent (Some h) w = Some x" by blast
  then obtain err archive' w' where
    c: "collect_round cwd archive_dir room_name draws RotateEvent (Some h) w =
          Some (err, archive', w')"
    by (cases x) simp
  note o = collect_rotation_outcome[OF assms c]
  show "\<exists>err archive' w'.
             collect_round cwd archive_dir room_name draws RotateEvent (Some h) w =
               Some (err, archive', w') \<and>
             (\<exists>rest. trace w' = trace w @ [EvFlush (name h), EvClose (name h)] @ rest \<and>
                (err = None \<longrightarrow>
                   archive' = None \<and>
                   (\<exists>new_path. rest = [EvRename (name h) new_path, EvQueue 0 new_path] \<and>
                      queue w' = queue w @ [(0, new_path)] \<and>
                      (\<exists>r\<in>set draws. new_path = compress_candidate (name h) r) \<and>
                      files w' (name h) = None \<and>
                      (\<forall>s. files w (name h) = Some (File s) \<longrightarrow>
                         files w' new_path = Some (File (s @ pending h))))) \<and>
                (err \<noteq> None \<longrightarrow>
                   rest = [] \<and> queue w' = queue w \<and>
                   archive' = Some (h\<lparr>pending := [], closed := True\<rparr>))) \<and>
             ((\<exists>s. files w (name h) = Some (File s)) \<and>
              files w (fst (os_path_split (name h))) = Some Dir \<and>
              (\<forall>r\<in>set draws. files w (compress_candidate (name h) r) \<noteq> Some Dir) \<longrightarrow>
              err = None)"
    apply (rule exI[of _ err])
    apply (rule exI[of _ archive'])
    apply (rule exI[of _ w'])
    apply (rule conjI)
     apply (rule c)
    apply (rule o)
    done
qed

theorem collect_rotation_writing_witness:
  "closed open_handle = False \<and>
   (\<exists>r\<in>set [0x0123abcd].
      \<not> isfile (files writing_world) (compress_candidate (name open_handle) r)) \<and>
   (\<exists>w'. collect_round ''/'' ''/arch'' ''room@c.d'' [0x0123abcd] RotateEvent (Some open_handle)
            writing_world = Some (None, None, w') \<and>
      trace w' =
        [EvFlush ''/arch/room@c.d/2026/11/03.json'', EvClose ''/arch/room@c.d/2026/11/03.json'',
         EvRename ''/arch/room@c.d/2026/11/03.json''
           ''/arch/room@c.d/2026/11/03.json.compress-0123abcd'',
         EvQueue 0 ''/arch/room@c.d/2026/11/03.json.compress-0123abcd''] \<and>
      queue w' = [(0, ''/arch/room@c.d/2026/11/03.json.compress-0123abcd'')] \<and>
      files w' ''/arch/room@c.d/2026/11/03.json'' = None \<and>
      files w' ''/arch/room@c.d/2026/11/03.json.compress-0123abcd'' = Some (File ''{}\<newline>'')) \<and>
   collect_round ''/'' ''/arch'' ''room@c.d'' [] RotateEvent (Some open_handle) writing_world = None"
proof -
  let ?n = "''/arch/room@c.d/2026/11/03.json''"
  let ?np = "''/arch/room@c.d/2026/11/03.json.compress-0123abcd''"
  have cl: "closed open_handle = False" by (simp add: open_handle_def)
  have nm: "name open_handle = ?n" by (simp add: open_handle_def)
  have pd: "pending open_handle = []" by (simp add: open_handle_def)
  have fl: "files writing_world ?n = Some (File ''{}\<newline>'')" by (simp add: writing_world_def)
  have dr: "files writing_world (fst (os_path_split ?n)) = Some Dir"
    by (simp add: open_handle_split writing_world_def)
  have nd: "\<forall>r\<in>set [0x0123abcd]. files writing_world (compress_candidate ?n r) \<noteq> Some Dir"
    by (simp add: open_handle_candidate writing_world_def empty_fs_def)
  have fr: "\<exists>r\<in>set [0x0123abcd].
      \<not> isfile (files writing_world) (compress_candidate (name open_handle) r)"
    by (simp add: nm open_handle_candidate isfile_def writing_world_def empty_fs_def)
  note t = collect_rotation_writing[OF cl, of "''/''" "''/arch''" "''room@c.d''" _ writing_world]
  from t[of "[]", THEN conjunct1]
  have none: "collect_round ''/'' ''/arch'' ''room@c.d'' [] RotateEvent (Some open_handle)
      writing_world = None" by simp
  from t[of "[0x0123abcd]", THEN conjunct2, rule_format, OF fr]
  obtain err a w' where
    c: "collect_round ''/'' ''/arch'' ''room@c.d'' [0x0123abcd] RotateEvent (Some open_handle)
          writing_world = Some (err, a, w')"
    and o: "\<exists>rest. trace w' = trace writing_world @ [EvFlush ?n, EvClose ?n] @ rest \<and>
                (err = None \<longrightarrow>
                   a = None \<and>
                   (\<exists>new_path. rest = [EvRename ?n new_path, EvQueue 0 new_path] \<and>
                      queue w' = queue writing_world @ [(0, new_path)] \<and>
                      (\<exists>r\<in>set [0x0123abcd]. new_path = compress_candidate ?n r) \<and>
                      files w' ?n = None \<and>
                      (\<forall>s. files writing_world ?n = Some (File s) \<longrightarrow>
                         files w' new_path = Some (File (s @ [])))))"
    and ok: "(\<exists>s. files writing_world ?n = Some (File s)) \<and>
              files writing_world (fst (os_path_split ?n)) = Some Dir \<and>
              (\<forall>r\<in>set [0x0123abcd]. files writing_world (compress_candidate ?n r) \<noteq> Some Dir) \<longrightarrow>
              err = None"
    unfolding nm pd by blast
  from ok fl dr nd have e: "err = None" by blast
  from o e obtain rest new_path where
    r: "trace w' = trace writing_world @ [EvFlush ?n, EvClose ?n] @ rest"
      "a = None"
      "rest = [EvRename ?n new_path, EvQueue 0 new_path]"
      "queue w' = queue writing_world @ [(0, new_path)]"
      "\<exists>r\<in>set [0x0123abcd]. new_path = compress_candidate ?n r"
      "files w' ?n = None"
      "\<forall>s. files writing_world ?n = Some (File s) \<longrightarrow> files w' new_path = Some (File (s @ []))"
    by blast
  from r(5) have np: "new_path = ?np" by (simp add: open_handle_candidate)
  have tq: "trace writing_world = []" "queue writing_world = []" by (simp_all add: writing_world_def)
  have main: "\<exists>w'. collect_round ''/'' ''/arch'' ''room@c.d'' [0x0123abcd] RotateEvent (Some open_handle)
            writing_world = Some (None, None, w') \<and>
      trace w' = [EvFlush ?n, EvClose ?n, EvRename ?n ?np, EvQueue 0 ?np] \<and>
      queue w' = [(0, ?np)] \<and> files w' ?n = None \<and> files w' ?np = Some (File ''{}\<newline>'')"
    using c e r(1,2,3,4,6,7) fl by (intro exI[of _ w']) (simp add: np tq)
  show ?thesis using cl fr main none by (intro conjI)
qed

end
